theory Spec2Isabelle
  imports Main "HOL-Library.Word"
begin

unbundle bit_operations_syntax

section \<open>Constants of direwolf.h\<close>

definition MAX_ADEVS :: int where
  "MAX_ADEVS = 3"

definition MAX_RADIO_CHANS :: int where
  "MAX_RADIO_CHANS = MAX_ADEVS * 2"

definition MAX_CHANS :: int where
  "MAX_CHANS = MAX_RADIO_CHANS"

definition MAX_SUBCHANS :: int where
  "MAX_SUBCHANS = 9"

definition MAX_SLICERS :: int where
  "MAX_SLICERS = 9"

text \<open>\<open>ACHAN2ADEV(n)\<close> is \<open>n >> 1\<close>.\<close>

definition ACHAN2ADEV :: "int \<Rightarrow> int" where
  "ACHAN2ADEV n = drop_bit 1 n"

section \<open>xmit.c: per-channel transmit timing parameters\<close>

text \<open>
  The file-static arrays \<open>xmit_slottime[MAX_CHANS]\<close> ... \<open>xmit_bits_per_sec[MAX_CHANS]\<close>
  of xmit.c, one list of \<open>MAX_CHANS\<close> C ints each.
\<close>

record xmit_params =
  xmit_slottime :: "int list"
  xmit_persist :: "int list"
  xmit_txdelay :: "int list"
  xmit_txtail :: "int list"
  xmit_fulldup :: "int list"
  xmit_bits_per_sec :: "int list"

definition xmit_params_ok :: "xmit_params \<Rightarrow> bool" where
  "xmit_params_ok s \<longleftrightarrow>
     int (length (xmit_slottime s)) = MAX_CHANS \<and>
     int (length (xmit_persist s)) = MAX_CHANS \<and>
     int (length (xmit_txdelay s)) = MAX_CHANS \<and>
     int (length (xmit_txtail s)) = MAX_CHANS \<and>
     int (length (xmit_fulldup s)) = MAX_CHANS \<and>
     int (length (xmit_bits_per_sec s)) = MAX_CHANS"

definition xmit_set_txdelay :: "int \<Rightarrow> int \<Rightarrow> xmit_params \<Rightarrow> xmit_params" where
  "xmit_set_txdelay channel val s =
     (if channel \<ge> 0 \<and> channel < MAX_CHANS
      then s\<lparr>xmit_txdelay := (xmit_txdelay s)[nat channel := val]\<rparr>
      else s)"

definition xmit_set_persist :: "int \<Rightarrow> int \<Rightarrow> xmit_params \<Rightarrow> xmit_params" where
  "xmit_set_persist channel val s =
     (if channel \<ge> 0 \<and> channel < MAX_CHANS
      then s\<lparr>xmit_persist := (xmit_persist s)[nat channel := val]\<rparr>
      else s)"

definition xmit_set_slottime :: "int \<Rightarrow> int \<Rightarrow> xmit_params \<Rightarrow> xmit_params" where
  "xmit_set_slottime channel val s =
     (if channel \<ge> 0 \<and> channel < MAX_CHANS
      then s\<lparr>xmit_slottime := (xmit_slottime s)[nat channel := val]\<rparr>
      else s)"

definition xmit_set_txtail :: "int \<Rightarrow> int \<Rightarrow> xmit_params \<Rightarrow> xmit_params" where
  "xmit_set_txtail channel val s =
     (if channel \<ge> 0 \<and> channel < MAX_CHANS
      then s\<lparr>xmit_txtail := (xmit_txtail s)[nat channel := val]\<rparr>
      else s)"

definition xmit_set_fulldup :: "int \<Rightarrow> int \<Rightarrow> xmit_params \<Rightarrow> xmit_params" where
  "xmit_set_fulldup channel val s =
     (if channel \<ge> 0 \<and> channel < MAX_CHANS
      then s\<lparr>xmit_fulldup := (xmit_fulldup s)[nat channel := val]\<rparr>
      else s)"

text \<open>The five setters, selected by name, so that one statement covers them all.\<close>

datatype timing_param = P_txdelay | P_persist | P_slottime | P_txtail | P_fulldup

fun xmit_set :: "timing_param \<Rightarrow> int \<Rightarrow> int \<Rightarrow> xmit_params \<Rightarrow> xmit_params" where
  "xmit_set P_txdelay = xmit_set_txdelay"
| "xmit_set P_persist = xmit_set_persist"
| "xmit_set P_slottime = xmit_set_slottime"
| "xmit_set P_txtail = xmit_set_txtail"
| "xmit_set P_fulldup = xmit_set_fulldup"

fun xmit_get :: "timing_param \<Rightarrow> xmit_params \<Rightarrow> int list" where
  "xmit_get P_txdelay = xmit_txdelay"
| "xmit_get P_persist = xmit_persist"
| "xmit_get P_slottime = xmit_slottime"
| "xmit_get P_txtail = xmit_txtail"
| "xmit_get P_fulldup = xmit_fulldup"

definition xmit_params0 :: xmit_params where
  "xmit_params0 =
     \<lparr>xmit_slottime = [10, 10, 10, 10, 10, 10],
      xmit_persist = [63, 63, 63, 63, 63, 63],
      xmit_txdelay = [30, 30, 30, 30, 30, 30],
      xmit_txtail = [10, 10, 10, 10, 10, 10],
      xmit_fulldup = [0, 0, 0, 0, 0, 0],
      xmit_bits_per_sec = [1200, 1200, 1200, 1200, 1200, 1200]\<rparr>"

section \<open>hdlc_rec.c: the per-bit HDLC decoder\<close>

text \<open>
  ax25_pad.h is not among the sources, so the two packet length limits it defines are
  parameters of the model.
\<close>

record ax25_limits =
  AX25_MIN_PACKET_LEN :: int
  AX25_MAX_PACKET_LEN :: int

definition MIN_FRAME_LEN :: "ax25_limits \<Rightarrow> int" where
  "MIN_FRAME_LEN L = AX25_MIN_PACKET_LEN L + 2"

definition MAX_FRAME_LEN :: "ax25_limits \<Rightarrow> int" where
  "MAX_FRAME_LEN L = AX25_MAX_PACKET_LEN L + 2"

text \<open>
  Modelled from the spec: rrbb.c (the raw received bit buffer) is not among the sources.
  The spec describes it as an opaque bit vector with append, length, chop-last-N and
  indexed read; it is a list of raw bits here, oldest first. The channel, sub-channel,
  slicer, descrambler state and audio level that the real buffer also carries are not
  modelled.
\<close>

type_synonym rrbb_t = "bool list"

definition rrbb_new :: rrbb_t where
  "rrbb_new = []"

definition rrbb_clear :: "rrbb_t \<Rightarrow> rrbb_t" where
  "rrbb_clear b = []"

definition rrbb_append_bit :: "rrbb_t \<Rightarrow> bool \<Rightarrow> rrbb_t" where
  "rrbb_append_bit b v = b @ [v]"

definition rrbb_chop8 :: "rrbb_t \<Rightarrow> rrbb_t" where
  "rrbb_chop8 b = take (length b - 8) b"

definition rrbb_get_len :: "rrbb_t \<Rightarrow> int" where
  "rrbb_get_len b = int (length b)"

definition rrbb_get_bit :: "rrbb_t \<Rightarrow> nat \<Rightarrow> bool" where
  "rrbb_get_bit b i = b ! i"

text \<open>
  \<open>struct hdlc_state_s\<close>. A raw bit is 0 or 1 (\<open>False\<close> or \<open>True\<close>). The descrambler
  fields \<open>lfsr\<close> and \<open>prev_descram\<close> are only passed on to the raw bit buffer, and the EAS
  fields are not touched by \<open>hdlc_rec_bit\<close>; they are left out.
\<close>

record hdlc_state_s =
  prev_raw :: bool
  pat_det :: "8 word"
  flag4_det :: "32 word"
  oacc :: "8 word"
  olen :: int
  frame_buf :: "8 word list"
  frame_len :: int
  rrbb :: rrbb_t

text \<open>
  The state of one decoder after \<open>hdlc_rec_init\<close>: static storage is zero, then
  \<open>olen = -1\<close> and a new raw bit buffer.
\<close>

definition hdlc_rec_init_state :: "ax25_limits \<Rightarrow> hdlc_state_s" where
  "hdlc_rec_init_state L =
     \<lparr>prev_raw = False, pat_det = 0, flag4_det = 0, oacc = 0, olen = - 1,
      frame_buf = replicate (nat (MAX_FRAME_LEN L)) 0, frame_len = 0, rrbb = rrbb_new\<rparr>"

text \<open>
  \<open>hdlc_rec_bit\<close> on the state \<open>H = &hdlc_state[chan][subchan][slice]\<close>. \<open>clobber\<close> is the
  outcome of the bit error rate test (\<open>recv_ber != 0\<close> and \<open>recv_ber > r\<close>), which inverts
  the raw bit. The second component of the result is the raw bit buffer handed to
  \<open>hdlc_rec2_block\<close>, if this call hands one over. The call of \<open>fx25_rec_bit\<close> works on
  the FX.25 decoder's own state and is not part of the model.
\<close>

definition shift_in8 :: "8 word \<Rightarrow> bool \<Rightarrow> 8 word" where
  "shift_in8 w dbit = (let w' = drop_bit 1 w in if dbit then w' OR 0x80 else w')"

definition shift_in32 :: "32 word \<Rightarrow> bool \<Rightarrow> 32 word" where
  "shift_in32 w dbit = (let w' = drop_bit 1 w in if dbit then w' OR 0x80000000 else w')"

definition hdlc_rec_bit ::
  "ax25_limits \<Rightarrow> hdlc_state_s \<Rightarrow> bool \<Rightarrow> bool \<Rightarrow> hdlc_state_s \<times> rrbb_t option" where
  "hdlc_rec_bit L H raw0 clobber =
     (let raw = (if clobber then \<not> raw0 else raw0);
          dbit = (raw = prev_raw H);
          H1 = H\<lparr>prev_raw := raw,
                 pat_det := shift_in8 (pat_det H) dbit,
                 flag4_det := shift_in32 (flag4_det H) dbit,
                 rrbb := rrbb_append_bit (rrbb H) raw\<rparr>
      in
      if pat_det H1 = 0x7e then
        (let b = rrbb_chop8 (rrbb H1) in
         if rrbb_get_len b \<ge> MIN_FRAME_LEN L * 8
         then (H1\<lparr>olen := 0, frame_len := 0,
                   rrbb := rrbb_append_bit rrbb_new (prev_raw H1)\<rparr>, Some b)
         else (H1\<lparr>olen := 0, frame_len := 0,
                   rrbb := rrbb_append_bit (rrbb_clear b) (prev_raw H1)\<rparr>, None))
      else if pat_det H1 = 0xfe then
        (H1\<lparr>olen := - 1, frame_len := 0, rrbb := rrbb_clear (rrbb H1)\<rparr>, None)
      else if (pat_det H1 AND 0xfc) = 0x7c then
        (H1, None)
      else if olen H1 \<ge> 0 then
        (let H2 = H1\<lparr>oacc := shift_in8 (oacc H1) dbit, olen := olen H1 + 1\<rparr> in
         if olen H2 = 8 then
           (if frame_len H2 < MAX_FRAME_LEN L
            then (H2\<lparr>olen := 0,
                      frame_buf := (frame_buf H2)[nat (frame_len H2) := oacc H2],
                      frame_len := frame_len H2 + 1\<rparr>, None)
            else (H2\<lparr>olen := 0\<rparr>, None))
         else (H2, None))
      else (H1, None))"

text \<open>
  A sequence of calls on one decoder: each input is a raw bit with the outcome of its
  bit error rate test. The raw bit buffers handed to \<open>hdlc_rec2_block\<close> are collected in
  order.
\<close>

fun hdlc_rec_bits ::
  "ax25_limits \<Rightarrow> hdlc_state_s \<Rightarrow> (bool \<times> bool) list \<Rightarrow> hdlc_state_s \<times> rrbb_t list" where
  "hdlc_rec_bits L H [] = (H, [])"
| "hdlc_rec_bits L H ((raw, clobber) # rest) =
     (let (H', ho) = hdlc_rec_bit L H raw clobber;
          (H'', hs) = hdlc_rec_bits L H' rest
      in (H'', (case ho of None \<Rightarrow> hs | Some b \<Rightarrow> b # hs)))"

text \<open>The state invariants the data model lists for a decoder.\<close>

definition hdlc_state_inv :: "ax25_limits \<Rightarrow> hdlc_state_s \<Rightarrow> bool" where
  "hdlc_state_inv L H \<longleftrightarrow>
     (olen H = - 1 \<or> (0 \<le> olen H \<and> olen H \<le> 8)) \<and>
     0 \<le> frame_len H \<and> frame_len H \<le> MAX_FRAME_LEN L \<and>
     int (length (frame_buf H)) = MAX_FRAME_LEN L"

text \<open>
  The bounds that every call of \<open>hdlc_rec_bit\<close> keeps: \<open>olen\<close> never stays at 8, since a
  complete octet resets it at once.
\<close>

definition hdlc_state_inv7 :: "ax25_limits \<Rightarrow> hdlc_state_s \<Rightarrow> bool" where
  "hdlc_state_inv7 L H \<longleftrightarrow>
     - 1 \<le> olen H \<and> olen H \<le> 7 \<and>
     0 \<le> frame_len H \<and> frame_len H \<le> MAX_FRAME_LEN L \<and>
     int (length (frame_buf H)) = MAX_FRAME_LEN L"

definition limits0 :: ax25_limits where
  "limits0 = \<lparr>AX25_MIN_PACKET_LEN = 15, AX25_MAX_PACKET_LEN = 256\<rparr>"

section \<open>hdlc_rec.c: data carrier detect\<close>

text \<open>
  The file-static \<open>num_subchan[MAX_CHANS]\<close> and
  \<open>composite_dcd[MAX_CHANS][MAX_SUBCHANS + 1]\<close>.
\<close>

record dcd_state =
  num_subchan :: "int list"
  composite_dcd :: "int list list"

definition dcd_state_ok :: "dcd_state \<Rightarrow> bool" where
  "dcd_state_ok D \<longleftrightarrow>
     int (length (num_subchan D)) = MAX_CHANS \<and>
     int (length (composite_dcd D)) = MAX_CHANS \<and>
     (\<forall>row \<in> set (composite_dcd D). int (length row) = MAX_SUBCHANS + 1) \<and>
     (\<forall>n \<in> set (num_subchan D). 0 \<le> n \<and> n \<le> MAX_SUBCHANS)"

text \<open>
  Modelled from the spec: audio.h is not among the sources. Of \<open>struct audio_s\<close> only the
  fields read by the modelled functions appear: whether \<open>chan_medium[ch]\<close> is
  \<open>MEDIUM_RADIO\<close>, and \<open>achan[ch].num_subchan\<close>, \<open>achan[ch].dwait\<close>.
\<close>

record audio_s =
  chan_medium_radio :: "bool list"
  achan_num_subchan :: "int list"
  achan_dwait :: "int list"

text \<open>
  The part of \<open>hdlc_rec_init\<close> that sets up the carrier detect state: \<open>composite_dcd\<close> is
  cleared and \<open>num_subchan\<close> is copied for radio channels (static storage is zero for the
  others). A failed \<open>assert\<close> is \<open>None\<close>.
\<close>

fun init_num_subchan :: "bool list \<Rightarrow> int list \<Rightarrow> int list option" where
  "init_num_subchan (m # ms) (n # ns) =
     (if m then
        (if n \<ge> 1 \<and> n \<le> MAX_SUBCHANS
         then map_option ((#) n) (init_num_subchan ms ns) else None)
      else map_option ((#) 0) (init_num_subchan ms ns))"
| "init_num_subchan _ _ = Some []"

definition hdlc_rec_init :: "audio_s \<Rightarrow> dcd_state option" where
  "hdlc_rec_init pa =
     map_option
       (\<lambda>ns. \<lparr>num_subchan = ns,
              composite_dcd = replicate (nat MAX_CHANS) (replicate (nat (MAX_SUBCHANS + 1)) 0)\<rparr>)
       (init_num_subchan (take (nat MAX_CHANS) (chan_medium_radio pa))
          (take (nat MAX_CHANS) (achan_num_subchan pa)))"

text \<open>The loop \<open>for (sc = 0; sc < num_subchan[chan]; sc++)\<close> of \<open>hdlc_rec_data_detect_any\<close>.\<close>

function dcd_scan :: "int list \<Rightarrow> int \<Rightarrow> int \<Rightarrow> bool" where
  "dcd_scan row n sc =
     (if sc < n then (if row ! nat sc \<noteq> 0 then True else dcd_scan row n (sc + 1))
      else False)"
  by pat_completeness auto
termination
  by (relation "measure (\<lambda>(row, n, sc). nat (n - sc))") auto

declare dcd_scan.simps [simp del]

text \<open>
  \<open>get_input(ICTYPE_TXINH, chan)\<close> reads an input line (ptt.c, not among the sources);
  its value is the parameter \<open>inp\<close>.
\<close>

definition hdlc_rec_data_detect_any :: "(int \<Rightarrow> int) \<Rightarrow> dcd_state \<Rightarrow> int \<Rightarrow> int option" where
  "hdlc_rec_data_detect_any inp D chan =
     (if chan \<ge> 0 \<and> chan < MAX_CHANS then
        Some (if dcd_scan (composite_dcd D ! nat chan) (num_subchan D ! nat chan) 0 then 1
              else if inp chan = 1 then 1
              else 0)
      else None)"

text \<open>
  \<open>dcd_change\<close>. The result is the new state and the value given to
  \<open>ptt_set(OCTYPE_DCD, chan, _)\<close>, if it is called.
\<close>

definition dcd_change ::
  "(int \<Rightarrow> int) \<Rightarrow> dcd_state \<Rightarrow> int \<Rightarrow> int \<Rightarrow> int \<Rightarrow> int \<Rightarrow> (dcd_state \<times> int option) option" where
  "dcd_change inp D chan subchan slicer state =
     (if \<not> (chan \<ge> 0 \<and> chan < MAX_CHANS) then None
      else if \<not> (subchan \<ge> 0 \<and> subchan \<le> MAX_SUBCHANS) then None
      else if \<not> (slicer \<ge> 0 \<and> slicer < MAX_SLICERS) then None
      else if \<not> (state = 0 \<or> state = 1) then None
      else
        (let old = hdlc_rec_data_detect_any inp D chan;
             row = composite_dcd D ! nat chan;
             v = row ! nat subchan;
             v' = (if state \<noteq> 0 then v OR push_bit (nat slicer) 1
                   else v AND NOT (push_bit (nat slicer) 1));
             D' = D\<lparr>composite_dcd := (composite_dcd D)[nat chan := row[nat subchan := v']]\<rparr>;
             new = hdlc_rec_data_detect_any inp D' chan
         in Some (D', if new \<noteq> old then new else None)))"

text \<open>A configuration with channel 0 a radio channel with one sub-channel.\<close>

definition audio0 :: audio_s where
  "audio0 =
     \<lparr>chan_medium_radio = [True, False, False, False, False, False],
      achan_num_subchan = [1, 0, 0, 0, 0, 0],
      achan_dwait = [0, 0, 0, 0, 0, 0]\<rparr>"

section \<open>hdlc_send.c: frames to bits\<close>

text \<open>
  The per-channel variables of hdlc_send.c for one channel: the NRZI line state
  \<open>output[chan]\<close> (here \<open>output_chan\<close>), the ones counter \<open>stuff[chan]\<close> and \<open>number_of_bits_sent[chan]\<close>;
  \<open>tone\<close> lists the bits given to \<open>tone_gen_put_bit(chan, _)\<close>, oldest first.
\<close>

record send_state =
  output_chan :: bool
  stuff :: int
  number_of_bits_sent :: int
  tone :: "bool list"

definition send_bit_nrzi :: "send_state \<Rightarrow> int \<Rightarrow> send_state" where
  "send_bit_nrzi S b =
     (let out = (if b = 0 then \<not> output_chan S else output_chan S)
      in S\<lparr>output_chan := out, tone := tone S @ [out],
            number_of_bits_sent := number_of_bits_sent S + 1\<rparr>)"

text \<open>The loops \<open>for (i = 0; i < 8; i++)\<close>; the first argument counts the rounds left.\<close>

fun send_control_loop :: "nat \<Rightarrow> int \<Rightarrow> send_state \<Rightarrow> send_state" where
  "send_control_loop 0 x S = S"
| "send_control_loop (Suc n) x S =
     send_control_loop n (drop_bit 1 x) (send_bit_nrzi S (x AND 1))"

definition send_control_nrzi :: "send_state \<Rightarrow> int \<Rightarrow> send_state" where
  "send_control_nrzi S x = (send_control_loop 8 x S)\<lparr>stuff := 0\<rparr>"

fun send_data_loop :: "nat \<Rightarrow> int \<Rightarrow> send_state \<Rightarrow> send_state" where
  "send_data_loop 0 x S = S"
| "send_data_loop (Suc n) x S =
     (let S1 = send_bit_nrzi S (x AND 1);
          S2 = (if x AND 1 \<noteq> 0 then
                  (let S' = S1\<lparr>stuff := stuff S1 + 1\<rparr> in
                   if stuff S' = 5 then (send_bit_nrzi S' 0)\<lparr>stuff := 0\<rparr> else S')
                else S1\<lparr>stuff := 0\<rparr>)
      in send_data_loop n (drop_bit 1 x) S2)"

definition send_data_nrzi :: "send_state \<Rightarrow> int \<Rightarrow> send_state" where
  "send_data_nrzi S x = send_data_loop 8 x S"

text \<open>
  \<open>ax25_only_hdlc_send_frame\<close>. fcs_calc.c is not among the sources: the checksum function
  is the parameter \<open>fcs_calc\<close>; \<open>fbuf\<close> holds the \<open>flen\<close> octets of the frame. The result is
  the returned bit count and the new state.
\<close>

definition ax25_only_hdlc_send_frame ::
  "(8 word list \<Rightarrow> 16 word) \<Rightarrow> send_state \<Rightarrow> 8 word list \<Rightarrow> bool \<Rightarrow> int \<times> send_state" where
  "ax25_only_hdlc_send_frame fcs_calc S fbuf bad_fcs =
     (let S0 = S\<lparr>number_of_bits_sent := 0\<rparr>;
          S1 = send_control_nrzi S0 0x7e;
          S2 = foldl (\<lambda>T b. send_data_nrzi T (uint b)) S1 fbuf;
          fcs = uint (fcs_calc fbuf);
          S3 = (if bad_fcs
                then send_data_nrzi (send_data_nrzi S2 ((NOT fcs) AND 0xff))
                       ((drop_bit 8 (NOT fcs)) AND 0xff)
                else send_data_nrzi (send_data_nrzi S2 (fcs AND 0xff))
                       ((drop_bit 8 fcs) AND 0xff));
          S4 = send_control_nrzi S3 0x7e
      in (number_of_bits_sent S4, S4))"

text \<open>\<open>layer2_preamble_postamble\<close> without the final \<open>audio_flush\<close>: \<open>nbytes\<close> flags.\<close>

fun send_flags_loop :: "nat \<Rightarrow> send_state \<Rightarrow> send_state" where
  "send_flags_loop 0 S = S"
| "send_flags_loop (Suc n) S = send_flags_loop n (send_control_nrzi S 0x7e)"

definition layer2_preamble_postamble :: "send_state \<Rightarrow> int \<Rightarrow> int \<times> send_state" where
  "layer2_preamble_postamble S nbytes =
     (let S1 = send_flags_loop (nat nbytes) (S\<lparr>number_of_bits_sent := 0\<rparr>)
      in (number_of_bits_sent S1, S1))"

section \<open>The words of the specification about bits on the line\<close>

text \<open>An octet as data bits, least significant bit first.\<close>

definition byte_bits :: "8 word \<Rightarrow> bool list" where
  "byte_bits b = map (bit b) [0..<8]"

text \<open>The flag \<open>0x7e\<close> as data bits.\<close>

definition flag_bits :: "bool list" where
  "flag_bits = [False, True, True, True, True, True, True, False]"

text \<open>
  NRZI: a one data bit leaves the line as it is, a zero data bit inverts it. The first
  argument is the line state before the first bit.
\<close>

fun nrzi_encode :: "bool \<Rightarrow> bool list \<Rightarrow> bool list" where
  "nrzi_encode s [] = []"
| "nrzi_encode s (d # ds) = (let s' = (if d then s else \<not> s) in s' # nrzi_encode s' ds)"

fun nrzi_decode :: "bool \<Rightarrow> bool list \<Rightarrow> bool list" where
  "nrzi_decode p [] = []"
| "nrzi_decode p (r # rs) = (r = p) # nrzi_decode r rs"

text \<open>
  Bit stuffing in the words of the specification: count the one bits in a row; after
  five, insert a zero and start the count again; a zero data bit starts it again too.
  The first argument is the count so far; \<open>stuff_count\<close> is the count at the end.
\<close>

fun bit_stuff :: "nat \<Rightarrow> bool list \<Rightarrow> bool list" where
  "bit_stuff k [] = []"
| "bit_stuff k (d # ds) =
     (if d then (if Suc k = 5 then True # False # bit_stuff 0 ds else True # bit_stuff (Suc k) ds)
      else False # bit_stuff 0 ds)"

fun stuff_count :: "nat \<Rightarrow> bool list \<Rightarrow> nat" where
  "stuff_count k [] = k"
| "stuff_count k (d # ds) =
     (if d then (if Suc k = 5 then stuff_count 0 ds else stuff_count (Suc k) ds)
      else stuff_count 0 ds)"

text \<open>No \<open>n\<close> one bits in a row, for a list that follows \<open>c\<close> one bits.\<close>

fun run_lt :: "nat \<Rightarrow> nat \<Rightarrow> bool list \<Rightarrow> bool" where
  "run_lt n c [] = (c < n)"
| "run_lt n c (d # ds) = (c < n \<and> (if d then run_lt n (Suc c) ds else run_lt n 0 ds))"

text \<open>The two checksum octets as the frame carries them, low octet first.\<close>

definition fcs_octets :: "16 word \<Rightarrow> bool \<Rightarrow> 8 word list" where
  "fcs_octets f bad_fcs =
     (if bad_fcs then [ucast (NOT f), ucast (drop_bit 8 (NOT f))]
      else [ucast f, ucast (drop_bit 8 f)])"

definition frame_data_bits :: "(8 word list \<Rightarrow> 16 word) \<Rightarrow> 8 word list \<Rightarrow> bool \<Rightarrow> bool list" where
  "frame_data_bits fcs_calc fbuf bad_fcs =
     concat (map byte_bits (fbuf @ fcs_octets (fcs_calc fbuf) bad_fcs))"

text \<open>The first \<open>n\<close> bits of a C int, least significant bit first.\<close>

definition int_bits :: "nat \<Rightarrow> int \<Rightarrow> bool list" where
  "int_bits n x = map (bit x) [0..<n]"

text \<open>A run of data bits given to \<open>send_bit_nrzi\<close> one after the other.\<close>

definition emit :: "send_state \<Rightarrow> bool list \<Rightarrow> send_state" where
  "emit S ds = foldl (\<lambda>T d. send_bit_nrzi T (if d then 1 else 0)) S ds"

definition send_state0 :: send_state where
  "send_state0 = \<lparr>output_chan = False, stuff = 0, number_of_bits_sent = 0, tone = []\<rparr>"

section \<open>xmit.c: frame flavors and the transmit queue\<close>

text \<open>
  Modelled from the spec: ax25_pad.c (the packet object) is not among the sources. A
  packet is represented by what the accessors used in xmit.c and hdlc_send.c return for
  it: \<open>ax25_is_null_frame\<close>, \<open>ax25_is_aprs\<close> (a UI frame with PID 0xF0),
  \<open>ax25_get_num_repeaters\<close>, \<open>ax25_get_h(pp, AX25_REPEATER_1)\<close> (the has-been-repeated
  bit of the first digipeater) and the octets \<open>ax25_pack\<close> produces.
\<close>

record packet =
  ax25_is_null_frame :: bool
  ax25_is_aprs :: bool
  ax25_get_num_repeaters :: int
  ax25_get_h_repeater_1 :: int
  ax25_pack :: "8 word list"

datatype flavor_t = FLAVOR_APRS_NEW | FLAVOR_APRS_DIGI | FLAVOR_OTHER

definition frame_flavor :: "packet \<Rightarrow> flavor_t" where
  "frame_flavor pp =
     (if ax25_is_aprs pp then
        (if ax25_get_num_repeaters pp \<ge> 1 \<and> ax25_get_h_repeater_1 pp \<noteq> 0
         then FLAVOR_APRS_DIGI else FLAVOR_APRS_NEW)
      else FLAVOR_OTHER)"

text \<open>
  Modelled from the spec: tq.c (the transmit queue) is not among the sources. Per
  channel there are two FIFOs of packets, high and low priority; \<open>tq_peek\<close> returns the
  oldest packet of one of them without removing it, \<open>tq_remove\<close> removes and returns it.
  Producers on other threads are not part of the model: the queues change only by
  \<open>tq_remove\<close>.
\<close>

datatype tq_prio = TQ_PRIO_0_HI | TQ_PRIO_1_LO

record tq =
  tq_hi :: "packet list"
  tq_lo :: "packet list"

definition tq_peek :: "tq \<Rightarrow> tq_prio \<Rightarrow> packet option" where
  "tq_peek Q prio =
     (case (case prio of TQ_PRIO_0_HI \<Rightarrow> tq_hi Q | TQ_PRIO_1_LO \<Rightarrow> tq_lo Q) of
        [] \<Rightarrow> None
      | pp # _ \<Rightarrow> Some pp)"

definition tq_remove :: "tq \<Rightarrow> tq_prio \<Rightarrow> packet option \<times> tq" where
  "tq_remove Q prio =
     (case prio of
        TQ_PRIO_0_HI \<Rightarrow>
          (case tq_hi Q of [] \<Rightarrow> (None, Q) | pp # rest \<Rightarrow> (Some pp, Q\<lparr>tq_hi := rest\<rparr>))
      | TQ_PRIO_1_LO \<Rightarrow>
          (case tq_lo Q of [] \<Rightarrow> (None, Q) | pp # rest \<Rightarrow> (Some pp, Q\<lparr>tq_lo := rest\<rparr>)))"

definition tq_count :: "tq \<Rightarrow> nat" where
  "tq_count Q = length (tq_hi Q) + length (tq_lo Q)"

section \<open>xmit.c: sending the frames of one transmission\<close>

text \<open>
  What one transmit channel needs from outside the modelled code: the checksum function,
  whether \<open>achan[chan].layer2_xmit\<close> is \<open>LAYER2_FX25\<close>, the FX.25 sender (fx25_send.c, not
  among the sources), and for each packet whether the transmit error rate test of
  \<open>send_one_frame\<close> asks for an invalid checksum (never, when \<open>xmit_error_rate\<close> is 0).
\<close>

record xmit_env =
  env_fcs_calc :: "8 word list \<Rightarrow> 16 word"
  env_layer2_fx25 :: bool
  env_fx25_send_frame :: "send_state \<Rightarrow> 8 word list \<Rightarrow> int \<times> send_state"
  env_send_invalid_fcs :: "packet \<Rightarrow> bool"

definition layer2_send_frame ::
  "xmit_env \<Rightarrow> send_state \<Rightarrow> packet \<Rightarrow> bool \<Rightarrow> int \<times> send_state" where
  "layer2_send_frame E S pp bad_fcs =
     (if env_layer2_fx25 E then
        (let (n, S') = env_fx25_send_frame E S (ax25_pack pp) in
         if n > 0 then (n, S')
         else ax25_only_hdlc_send_frame (env_fcs_calc E) S' (ax25_pack pp) bad_fcs)
      else ax25_only_hdlc_send_frame (env_fcs_calc E) S (ax25_pack pp) bad_fcs)"

text \<open>What a transmission does, in order, as far as the model follows it.\<close>

datatype xmit_event =
    PTT int
  | FLAGS int
  | FRAME tq_prio packet int
  | DELETE packet
  | DISCARD tq_prio packet

definition send_one_frame ::
  "xmit_env \<Rightarrow> send_state \<Rightarrow> tq_prio \<Rightarrow> packet \<Rightarrow> int \<times> send_state" where
  "send_one_frame E S p pp =
     (if ax25_is_null_frame pp then (0, S)
      else layer2_send_frame E S pp (env_send_invalid_fcs E pp))"

text \<open>
  The loop \<open>while (numframe < max_bundle && !done)\<close> of \<open>xmit_ax25_frames\<close>; \<open>done = 1\<close>
  ends it, so those branches return. The result is the queue, the sender state, the
  number of frames sent and the events, oldest first.
\<close>

function bundle_loop ::
  "xmit_env \<Rightarrow> int \<Rightarrow> int \<Rightarrow> tq \<Rightarrow> send_state \<Rightarrow> xmit_event list \<Rightarrow>
   tq \<times> send_state \<times> int \<times> xmit_event list" where
  "bundle_loop E max_bundle numframe Q S ev =
     (if numframe < max_bundle then
        (case (case tq_peek Q TQ_PRIO_0_HI of
                 Some pp \<Rightarrow> Some (TQ_PRIO_0_HI, pp)
               | None \<Rightarrow> map_option (Pair TQ_PRIO_1_LO) (tq_peek Q TQ_PRIO_1_LO)) of
           Some (prio, pp) \<Rightarrow>
             (case frame_flavor pp of
                FLAVOR_APRS_DIGI \<Rightarrow> (Q, S, numframe, ev)
              | _ \<Rightarrow>
                  (case tq_remove Q prio of
                     (Some pp', Q') \<Rightarrow>
                       (let (nb, S') = send_one_frame E S prio pp';
                            numframe' = (if nb > 0 then numframe + 1 else numframe)
                        in bundle_loop E max_bundle numframe' Q' S'
                             (ev @ [FRAME prio pp' nb, DELETE pp']))
                   | (None, Q') \<Rightarrow> (Q', S, numframe, ev)))
         | None \<Rightarrow> (Q, S, numframe, ev))
      else (Q, S, numframe, ev))"
  by pat_completeness auto
termination
proof (relation "measure (\<lambda>(E, max_bundle, numframe, Q, S, ev). tq_count Q)")
  show "wf (measure (\<lambda>(E, max_bundle, numframe, Q, S, ev). tq_count Q))"
    by simp
qed (auto simp: tq_peek_def tq_remove_def tq_count_def
       split: list.splits tq_prio.splits option.splits)

declare bundle_loop.simps [simp del]

text \<open>
  Integer division of C, which truncates towards zero, for \<open>MS_TO_BITS\<close>.
\<close>

definition c_div :: "int \<Rightarrow> int \<Rightarrow> int" where
  "c_div a b = sgn a * sgn b * (\<bar>a\<bar> div \<bar>b\<bar>)"

definition MS_TO_BITS :: "int \<Rightarrow> int \<Rightarrow> int" where
  "MS_TO_BITS ms bits_per_sec = c_div (ms * bits_per_sec) 1000"

text \<open>
  \<open>xmit_ax25_frames\<close> for one channel, with that channel's \<open>txdelay\<close>, \<open>txtail\<close> and bit
  rate. The bit count, the computed duration and the sleep that follows \<open>audio_wait\<close> are
  not modelled.
\<close>

definition xmit_ax25_frames ::
  "xmit_env \<Rightarrow> int \<Rightarrow> int \<Rightarrow> int \<Rightarrow> tq \<Rightarrow> send_state \<Rightarrow> tq_prio \<Rightarrow> packet \<Rightarrow> int \<Rightarrow>
   tq \<times> send_state \<times> int \<times> xmit_event list" where
  "xmit_ax25_frames E txdelay txtail bits_per_sec Q S prio pp max_bundle =
     (let pre_flags = c_div (MS_TO_BITS (txdelay * 10) bits_per_sec) 8;
          (nf0, S0) = layer2_preamble_postamble S pre_flags;
          (nb, S1) = send_one_frame E S0 prio pp;
          numframe = (if nb > 0 then 1 else 0);
          (Q2, S2, numframe2, ev2) =
            bundle_loop E max_bundle numframe Q S1
              [PTT 1, FLAGS pre_flags, FRAME prio pp nb, DELETE pp];
          post_flags = c_div (MS_TO_BITS (txtail * 10) bits_per_sec) 8;
          (nf3, S3) = layer2_preamble_postamble S2 post_flags
      in (Q2, S3, numframe2, ev2 @ [FLAGS post_flags, PTT 0]))"

section \<open>xmit.c: waiting for a clear channel\<close>

definition WAIT_TIMEOUT_MS :: int where
  "WAIT_TIMEOUT_MS = 60 * 1000"

definition WAIT_CHECK_EVERY_MS :: int where
  "WAIT_CHECK_EVERY_MS = 10"

text \<open>
  What \<open>wait_for_clear_channel\<close> reads from outside, each as the sequence of the values its
  successive calls return: \<open>hdlc_rec_data_detect_any(chan)\<close>, whether
  \<open>tq_peek(chan, TQ_PRIO_0_HI)\<close> finds a packet (producers run on other threads),
  \<open>rand()\<close>, and whether \<open>dw_mutex_try_lock\<close> gets the audio device.
\<close>

record wait_env =
  dcd_any :: "nat \<Rightarrow> int"
  hi_peek :: "nat \<Rightarrow> bool"
  rand_val :: "nat \<Rightarrow> int"
  try_lock :: "nat \<Rightarrow> bool"

text \<open>
  The local \<open>n\<close>, how many values of each sequence have been used, and the arguments of
  the \<open>SLEEP_MS\<close> calls so far, oldest first.
\<close>

record wait_state =
  w_n :: int
  w_dcd :: nat
  w_peek :: nat
  w_rand :: nat
  w_lock :: nat
  w_sleeps :: "int list"

definition wait_state0 :: wait_state where
  "wait_state0 = \<lparr>w_n = 0, w_dcd = 0, w_peek = 0, w_rand = 0, w_lock = 0, w_sleeps = []\<rparr>"

text \<open>
  The three loop heads of \<open>wait_for_clear_channel\<close>: the label \<open>start_over_again\<close> with the
  busy loop, the random wait loop, and the loop that takes the audio device.
\<close>

datatype wait_pc = START_OVER_AGAIN | RANDOM_WAIT | ACQUIRE_DEVICE

text \<open>The test \<open>r <= persist\<close> on \<open>r = rand() & 0xff\<close>.\<close>

definition persist_test :: "int \<Rightarrow> int \<Rightarrow> bool" where
  "persist_test rnd persist \<longleftrightarrow> (rnd AND 0xff) \<le> persist"

text \<open>
  One round from a loop head: to the next loop head (\<open>Inl\<close>), or the return value
  (\<open>Inr\<close>).
\<close>

definition wait_step ::
  "wait_env \<Rightarrow> int \<Rightarrow> int \<Rightarrow> int \<Rightarrow> wait_pc \<Rightarrow> wait_state \<Rightarrow>
   (wait_pc \<times> wait_state) + (int \<times> wait_state)" where
  "wait_step E slottime persist dwait pc W =
     (case pc of
        START_OVER_AGAIN \<Rightarrow>
          (if dcd_any E (w_dcd W) \<noteq> 0 then
             (let W1 = W\<lparr>w_dcd := Suc (w_dcd W),
                          w_sleeps := w_sleeps W @ [WAIT_CHECK_EVERY_MS],
                          w_n := w_n W + 1\<rparr>
              in if w_n W1 > c_div WAIT_TIMEOUT_MS WAIT_CHECK_EVERY_MS
                 then Inr (0, W1) else Inl (START_OVER_AGAIN, W1))
           else
             (let W1 = W\<lparr>w_dcd := Suc (w_dcd W)\<rparr>;
                  W2 = (if dwait > 0 then W1\<lparr>w_sleeps := w_sleeps W1 @ [dwait * 10]\<rparr> else W1);
                  W3 = W2\<lparr>w_dcd := Suc (w_dcd W2)\<rparr>
              in if dcd_any E (w_dcd W2) \<noteq> 0
                 then Inl (START_OVER_AGAIN, W3) else Inl (RANDOM_WAIT, W3)))
      | RANDOM_WAIT \<Rightarrow>
          (if \<not> hi_peek E (w_peek W) then
             (let W1 = W\<lparr>w_peek := Suc (w_peek W),
                          w_sleeps := w_sleeps W @ [slottime * 10]\<rparr>;
                  W2 = W1\<lparr>w_dcd := Suc (w_dcd W1)\<rparr>
              in if dcd_any E (w_dcd W1) \<noteq> 0 then Inl (START_OVER_AGAIN, W2)
                 else
                   (let W3 = W2\<lparr>w_rand := Suc (w_rand W2)\<rparr>
                    in if persist_test (rand_val E (w_rand W2)) persist
                       then Inl (ACQUIRE_DEVICE, W3) else Inl (RANDOM_WAIT, W3)))
           else Inl (ACQUIRE_DEVICE, W\<lparr>w_peek := Suc (w_peek W)\<rparr>))
      | ACQUIRE_DEVICE \<Rightarrow>
          (if \<not> try_lock E (w_lock W) then
             (let W1 = W\<lparr>w_lock := Suc (w_lock W),
                          w_sleeps := w_sleeps W @ [WAIT_CHECK_EVERY_MS],
                          w_n := w_n W + 1\<rparr>
              in if w_n W1 > c_div WAIT_TIMEOUT_MS WAIT_CHECK_EVERY_MS
                 then Inr (0, W1) else Inl (ACQUIRE_DEVICE, W1))
           else Inr (1, W\<lparr>w_lock := Suc (w_lock W)\<rparr>)))"

text \<open>
  Running from a loop head to the return. The random wait loop has no bound of its own,
  so the function may not return: that is \<open>None\<close>.
\<close>

partial_function (option) wait_run ::
  "wait_env \<Rightarrow> int \<Rightarrow> int \<Rightarrow> int \<Rightarrow> wait_pc \<Rightarrow> wait_state \<Rightarrow> (int \<times> wait_state) option" where
  "wait_run E slottime persist dwait pc W =
     (case wait_step E slottime persist dwait pc W of
        Inr r \<Rightarrow> Some r
      | Inl (pc', W') \<Rightarrow> wait_run E slottime persist dwait pc' W')"

text \<open>
  \<open>wait_for_clear_channel(chan, slottime, persist, fulldup)\<close>, with
  \<open>save_audio_config_p->achan[chan].dwait\<close> as \<open>dwait\<close>.
\<close>

definition wait_for_clear_channel ::
  "wait_env \<Rightarrow> int \<Rightarrow> int \<Rightarrow> int \<Rightarrow> int \<Rightarrow> (int \<times> wait_state) option" where
  "wait_for_clear_channel E slottime persist fulldup dwait =
     wait_run E slottime persist dwait
       (if fulldup = 0 then START_OVER_AGAIN else ACQUIRE_DEVICE) wait_state0"

section \<open>xmit.c: one round of the transmit thread\<close>

text \<open>
  The body of the loop \<open>while (tq_peek(chan, TQ_PRIO_0_HI) != NULL || ...)\<close> of
  \<open>xmit_thread\<close> for one channel with its timing parameters: wait for the channel, remove
  the next packet, then send it (and what may be bundled with it) or discard it. \<open>None\<close>
  when the wait does not return. The \<open>dw_mutex_unlock\<close> of the audio device after a
  transmission and the text of the lines printed for a discarded packet are not modelled:
  the discard is the event \<open>DISCARD\<close>, followed by \<open>DELETE\<close> for \<open>ax25_delete\<close>.
\<close>

record chan_timing =
  ct_slottime :: int
  ct_persist :: int
  ct_txdelay :: int
  ct_txtail :: int
  ct_fulldup :: int
  ct_bits_per_sec :: int
  ct_dwait :: int

definition xmit_thread_round ::
  "xmit_env \<Rightarrow> wait_env \<Rightarrow> chan_timing \<Rightarrow> tq \<Rightarrow> send_state \<Rightarrow>
   (tq \<times> send_state \<times> wait_state \<times> xmit_event list) option" where
  "xmit_thread_round E WE C Q S =
     (case wait_for_clear_channel WE (ct_slottime C) (ct_persist C) (ct_fulldup C) (ct_dwait C) of
        None \<Rightarrow> None
      | Some (ok, W) \<Rightarrow>
          (let (prio, (ppo, Q1)) =
                 (case tq_remove Q TQ_PRIO_0_HI of
                    (Some pp, Q') \<Rightarrow> (TQ_PRIO_0_HI, (Some pp, Q'))
                  | (None, Q') \<Rightarrow> (TQ_PRIO_1_LO, tq_remove Q' TQ_PRIO_1_LO))
           in case ppo of
                None \<Rightarrow> Some (Q1, S, W, [])
              | Some pp \<Rightarrow>
                  (if ok \<noteq> 0 then
                     (let (Q2, S2, nf, ev) =
                            (case frame_flavor pp of
                               FLAVOR_APRS_DIGI \<Rightarrow>
                                 xmit_ax25_frames E (ct_txdelay C) (ct_txtail C)
                                   (ct_bits_per_sec C) Q1 S prio pp 1
                             | _ \<Rightarrow>
                                 xmit_ax25_frames E (ct_txdelay C) (ct_txtail C)
                                   (ct_bits_per_sec C) Q1 S prio pp 256)
                      in Some (Q2, S2, W, ev))
                   else Some (Q1, S, W, [DISCARD prio pp, DELETE pp]))))"

section \<open>Notions used to state the scheduler properties\<close>

text \<open>A frame that counts in \<open>numframe\<close>: \<open>send_one_frame\<close> returned a positive bit count.\<close>

fun sent_frame :: "xmit_event \<Rightarrow> bool" where
  "sent_frame (FRAME prio pp nb) = (nb > 0)"
| "sent_frame _ = False"

text \<open>
  The packet the scheduler takes next: the oldest high priority packet, else the oldest
  low priority one; its priority; and the queue without it.
\<close>

definition next_frame :: "tq \<Rightarrow> packet option" where
  "next_frame Q = (case tq_peek Q TQ_PRIO_0_HI of Some pp \<Rightarrow> Some pp | None \<Rightarrow> tq_peek Q TQ_PRIO_1_LO)"

definition next_prio :: "tq \<Rightarrow> tq_prio" where
  "next_prio Q = (if tq_hi Q \<noteq> [] then TQ_PRIO_0_HI else TQ_PRIO_1_LO)"

definition tq_drop :: "tq \<Rightarrow> tq" where
  "tq_drop Q = snd (tq_remove Q (next_prio Q))"

text \<open>The packets given to \<open>send_one_frame\<close> in a transmission, in order.\<close>

fun frames_of :: "xmit_event list \<Rightarrow> packet list" where
  "frames_of [] = []"
| "frames_of (FRAME prio pp nb # ev) = pp # frames_of ev"
| "frames_of (_ # ev) = frames_of ev"



section \<open>The frame dispatcher and the event queue\<close>

text \<open>
  Modelled from the spec: hdlc_rec2.c (\<open>hdlc_rec2_block\<close>) and multi_modem.c, the frame
  dispatcher, are not among the sources. The specification gives its contract: the input
  is a candidate raw bit buffer; the checksum is computed over all but the final two
  octets and compared with the final two octets read little-endian; a valid candidate
  gives one frame event. The octets of a candidate are recovered from its raw bits by
  the per-bit procedure of the deframer: NRZI decoding, seeded by the first bit of the
  buffer (the last bit of the opening flag), the pattern detector, de-stuffing and octet
  assembly, least significant bit first, with octets beyond \<open>MAX_FRAME_LEN\<close> not stored;
  a flag or an abort pattern inside the candidate rejects it. A candidate must be a whole
  number of octets, at least \<open>MIN_FRAME_LEN\<close> of them. Retries with changed bits, the
  pass-all mode and the choice among several slicers are not modelled: one decoder,
  no bit fixing.
\<close>

record rec2_state =
  h2_prev_raw :: bool
  h2_pat_det :: "8 word"
  h2_oacc :: "8 word"
  h2_olen :: int
  h2_frame :: "8 word list"

definition rec2_bit :: "ax25_limits \<Rightarrow> rec2_state \<Rightarrow> bool \<Rightarrow> rec2_state option" where
  "rec2_bit L H raw =
     (let dbit = (raw = h2_prev_raw H);
          H1 = H\<lparr>h2_prev_raw := raw, h2_pat_det := shift_in8 (h2_pat_det H) dbit\<rparr>
      in
      if h2_pat_det H1 = 0x7e then None
      else if h2_pat_det H1 = 0xfe then None
      else if (h2_pat_det H1 AND 0xfc) = 0x7c then Some H1
      else
        (let H2 = H1\<lparr>h2_oacc := shift_in8 (h2_oacc H1) dbit, h2_olen := h2_olen H1 + 1\<rparr> in
         if h2_olen H2 = 8 then
           (if int (length (h2_frame H2)) < MAX_FRAME_LEN L
            then Some (H2\<lparr>h2_olen := 0, h2_frame := h2_frame H2 @ [h2_oacc H2]\<rparr>)
            else Some (H2\<lparr>h2_olen := 0\<rparr>))
         else Some H2))"

fun rec2_bits :: "ax25_limits \<Rightarrow> rec2_state \<Rightarrow> bool list \<Rightarrow> rec2_state option" where
  "rec2_bits L H [] = Some H"
| "rec2_bits L H (raw # raws) =
     (case rec2_bit L H raw of None \<Rightarrow> None | Some H' \<Rightarrow> rec2_bits L H' raws)"

text \<open>The two final octets read little-endian.\<close>

definition actual_fcs :: "8 word list \<Rightarrow> 16 word" where
  "actual_fcs frame =
     ucast (frame ! (length frame - 2)) OR push_bit 8 (ucast (frame ! (length frame - 1)))"

text \<open>
  The result of \<open>hdlc_rec2_block\<close>: the octets of the validated frame without the two
  checksum octets, or nothing.
\<close>

definition hdlc_rec2_block ::
  "ax25_limits \<Rightarrow> (8 word list \<Rightarrow> 16 word) \<Rightarrow> rrbb_t \<Rightarrow> 8 word list option" where
  "hdlc_rec2_block L fcs_calc block =
     (case block of
        [] \<Rightarrow> None
      | seed # raws \<Rightarrow>
          (case rec2_bits L
                  \<lparr>h2_prev_raw = seed, h2_pat_det = 0, h2_oacc = 0, h2_olen = 0, h2_frame = []\<rparr>
                  raws of
             None \<Rightarrow> None
           | Some H \<Rightarrow>
               if h2_olen H = 0 \<and> int (length (h2_frame H)) \<ge> MIN_FRAME_LEN L \<and>
                  length (h2_frame H) \<ge> 2 \<and>
                  actual_fcs (h2_frame H) =
                    fcs_calc (take (length (h2_frame H) - 2) (h2_frame H))
               then Some (take (length (h2_frame H) - 2) (h2_frame H))
               else None))"

text \<open>
  dlq.c: a queue item for a received frame, and \<open>dlq_rec_frame\<close>, which appends one to the
  end of the queue. The packet of an item is represented by its octets; \<open>None\<close> is the
  \<open>NULL\<close> packet pointer, for which the function prints an error and returns. The audio
  level and the spectrum string are left out. A failed \<open>assert\<close> is \<open>None\<close>.
\<close>

datatype fec_type_t = fec_type_none | fec_type_fx25

datatype retry_t = RETRY_NONE

record dlq_item_s =
  item_chan :: int
  item_subchan :: int
  item_slice :: int
  item_pp :: "8 word list"
  item_fec_type :: fec_type_t
  item_retries :: retry_t

definition MAX_TOTAL_CHANS :: int where
  "MAX_TOTAL_CHANS = 16"

definition dlq_rec_frame ::
  "dlq_item_s list \<Rightarrow> int \<Rightarrow> int \<Rightarrow> int \<Rightarrow> 8 word list option \<Rightarrow> fec_type_t \<Rightarrow> retry_t \<Rightarrow>
   dlq_item_s list option" where
  "dlq_rec_frame queue chan subchan slicer pp fec_type retries =
     (if \<not> (chan \<ge> 0 \<and> chan < MAX_TOTAL_CHANS) then None
      else
        (case pp of
           None \<Rightarrow> Some queue
         | Some octets \<Rightarrow>
             Some (queue @
               [\<lparr>item_chan = chan, item_subchan = subchan, item_slice = slicer,
                 item_pp = octets, item_fec_type = fec_type, item_retries = retries\<rparr>])))"

text \<open>
  The receive path of one decoder \<open>(chan, subchan, slice)\<close>: every raw bit buffer that
  \<open>hdlc_rec_bit\<close> hands over goes through \<open>hdlc_rec2_block\<close>, and a validated frame is
  queued with \<open>dlq_rec_frame\<close> as a plain AX.25 frame received without bit fixing.
\<close>

fun dispatch_blocks ::
  "ax25_limits \<Rightarrow> (8 word list \<Rightarrow> 16 word) \<Rightarrow> int \<Rightarrow> int \<Rightarrow> int \<Rightarrow> dlq_item_s list \<Rightarrow>
   rrbb_t list \<Rightarrow> dlq_item_s list option" where
  "dispatch_blocks L fcs_calc chan subchan slicer queue [] = Some queue"
| "dispatch_blocks L fcs_calc chan subchan slicer queue (b # bs) =
     (case hdlc_rec2_block L fcs_calc b of
        None \<Rightarrow> dispatch_blocks L fcs_calc chan subchan slicer queue bs
      | Some octets \<Rightarrow>
          (case dlq_rec_frame queue chan subchan slicer (Some octets) fec_type_none RETRY_NONE of
             None \<Rightarrow> None
           | Some queue' \<Rightarrow> dispatch_blocks L fcs_calc chan subchan slicer queue' bs))"

text \<open>
  The asserts of \<open>hdlc_rec_bit\<close> on the indices of the decoder it is called for.
\<close>

definition decoder_index_ok :: "int \<Rightarrow> int \<Rightarrow> int \<Rightarrow> bool" where
  "decoder_index_ok chan subchan slicer \<longleftrightarrow>
     chan \<ge> 0 \<and> chan < MAX_CHANS \<and> subchan \<ge> 0 \<and> subchan < MAX_SUBCHANS \<and>
     slicer \<ge> 0 \<and> slicer < MAX_SLICERS"

text \<open>Raw bits as inputs of \<open>hdlc_rec_bit\<close> with no injected bit errors.\<close>

definition clean :: "bool list \<Rightarrow> (bool \<times> bool) list" where
  "clean raws = map (\<lambda>raw. (raw, False)) raws"

definition receive_bits ::
  "ax25_limits \<Rightarrow> (8 word list \<Rightarrow> 16 word) \<Rightarrow> int \<Rightarrow> int \<Rightarrow> int \<Rightarrow> hdlc_state_s \<Rightarrow>
   bool list \<Rightarrow> dlq_item_s list option" where
  "receive_bits L fcs_calc chan subchan slicer H raws =
     (if raws \<noteq> [] \<and> \<not> decoder_index_ok chan subchan slicer then None
      else dispatch_blocks L fcs_calc chan subchan slicer []
             (snd (hdlc_rec_bits L H (clean raws))))"

text \<open>
  The pattern detector holds exactly \<open>k\<close> one bits after its newest zero bit (the newest
  bit is bit 7).
\<close>

definition trail :: "8 word \<Rightarrow> nat \<Rightarrow> bool" where
  "trail p k \<longleftrightarrow> k \<le> 7 \<and> (\<forall>i<k. bit p (7 - i)) \<and> \<not> bit p (7 - k)"

text \<open>
  The data bits \<open>ds\<close>, shifted into the pattern detector \<open>p\<close> one after the other, never
  make it the flag \<open>0x7e\<close> or the abort pattern \<open>0xfe\<close>.
\<close>

fun quiet :: "8 word \<Rightarrow> bool list \<Rightarrow> bool" where
  "quiet p [] = True"
| "quiet p (d # ds) =
     (shift_in8 p d \<noteq> 0x7e \<and> shift_in8 p d \<noteq> 0xfe \<and> quiet (shift_in8 p d) ds)"

text \<open>The NRZI line state after the data bits \<open>ds\<close>, from the line state \<open>s\<close>.\<close>

fun line_after :: "bool \<Rightarrow> bool list \<Rightarrow> bool" where
  "line_after s [] = s"
| "line_after s (d # ds) = line_after (if d then s else \<not> s) ds"

section \<open>The frame check sequence\<close>

text \<open>
  Modelled from the spec: fcs_calc.c is not among the sources. The specification gives
  the checksum as CCITT-16 with initial value \<open>0xFFFF\<close>, reflected, polynomial \<open>0x1021\<close>
  (\<open>0x8408\<close> when reflected), final XOR \<open>0xFFFF\<close>. The theorems about the serializer and
  the decoder hold for any checksum function; this one serves the concrete examples.
\<close>

definition crc_bit :: "16 word \<Rightarrow> bool \<Rightarrow> 16 word" where
  "crc_bit c d = (if bit c 0 \<noteq> d then drop_bit 1 c XOR 0x8408 else drop_bit 1 c)"

definition crc_octet :: "16 word \<Rightarrow> 8 word \<Rightarrow> 16 word" where
  "crc_octet c b = foldl crc_bit c (byte_bits b)"

definition fcs_calc :: "8 word list \<Rightarrow> 16 word" where
  "fcs_calc bs = foldl crc_octet 0xFFFF bs XOR 0xFFFF"

section \<open>Concrete inputs\<close>

definition wait_env_clear :: wait_env where
  "wait_env_clear =
     \<lparr>dcd_any = (\<lambda>k. 0), hi_peek = (\<lambda>k. False), rand_val = (\<lambda>k. 200), try_lock = (\<lambda>k. True)\<rparr>"


definition chan_timing0 :: chan_timing where
  "chan_timing0 =
     \<lparr>ct_slottime = 10, ct_persist = 255, ct_txdelay = 30, ct_txtail = 10, ct_fulldup = 0,
      ct_bits_per_sec = 1200, ct_dwait = 0\<rparr>"

definition xmit_env0 :: xmit_env where
  "xmit_env0 =
     \<lparr>env_fcs_calc = fcs_calc, env_layer2_fx25 = False,
      env_fx25_send_frame = (\<lambda>S b. (0, S)), env_send_invalid_fcs = (\<lambda>pp. False)\<rparr>"

definition pkt_digi :: packet where
  "pkt_digi =
     \<lparr>ax25_is_null_frame = False, ax25_is_aprs = True, ax25_get_num_repeaters = 1,
      ax25_get_h_repeater_1 = 1, ax25_pack = [0x82, 0xa0, 0xa4, 0xa6]\<rparr>"

definition pkt_new :: packet where
  "pkt_new =
     \<lparr>ax25_is_null_frame = False, ax25_is_aprs = True, ax25_get_num_repeaters = 0,
      ax25_get_h_repeater_1 = 0, ax25_pack = [0x82, 0xa0, 0xa4, 0xa6]\<rparr>"

definition tq0 :: tq where
  "tq0 = \<lparr>tq_hi = [pkt_digi], tq_lo = [pkt_new, pkt_new]\<rparr>"

text \<open>
  The pattern detector is in step with a sender whose ones counter is \<open>k\<close>, or it holds
  eight one bits, as after an abort.
\<close>

definition sync :: "8 word \<Rightarrow> nat \<Rightarrow> bool" where
  "sync p k \<longleftrightarrow> trail p k \<or> p = 0xff"

text \<open>
  A frame of sixteen octets: two addresses, control \<open>0x03\<close> and protocol \<open>0xf0\<close>.
\<close>

definition frame0 :: "8 word list" where
  "frame0 = [0x82, 0xa0, 0xa4, 0xa6, 0x40, 0x40, 0x60, 0xae, 0x84, 0x64, 0x9e, 0xa6, 0xb4, 0x61,
             0x03, 0xf0]"

text \<open>
  Two octets after which the checksum register is back at its initial value \<open>0xFFFF\<close>: a
  frame that starts with them has the checksum of the octets that follow them.
\<close>

definition head0 :: "8 word list" where
  "head0 = [0xde, 0x0c]"

text \<open>
  The raw bits \<open>raws\<close> of a line whose state before them is \<open>s\<close>, with eight one data bits
  injected after the first \<open>n\<close> bits: for eight bit times the line keeps its state.
\<close>

definition inject_ones :: "nat \<Rightarrow> bool \<Rightarrow> bool list \<Rightarrow> bool list" where
  "inject_ones n s raws =
     (let ds = nrzi_decode s raws
      in nrzi_encode s (take n ds @ replicate 8 True @ drop n ds))"



text \<open>
  The frame that is never bundled, in the words of the specification: an APRS UI frame
  with at least one digipeater whose first listed digipeater has the has-been-repeated
  bit set.
\<close>

definition digipeated :: "packet \<Rightarrow> bool" where
  "digipeated pp \<longleftrightarrow>
     ax25_is_aprs pp \<and> ax25_get_num_repeaters pp \<ge> 1 \<and> ax25_get_h_repeater_1 pp \<noteq> 0"

text \<open>
  The packets of the queue in the order the scheduler takes them: the high priority
  ones, then the low priority ones.
\<close>

definition tq_frames :: "tq \<Rightarrow> packet list" where
  "tq_frames Q = tq_hi Q @ tq_lo Q"

text \<open>
  A digipeated packet with two digipeaters, a queue in which it stands between new
  packets, and a queue of 300 new packets.
\<close>

definition pkt_digi2 :: packet where
  "pkt_digi2 =
     \<lparr>ax25_is_null_frame = False, ax25_is_aprs = True, ax25_get_num_repeaters = 2,
      ax25_get_h_repeater_1 = 1, ax25_pack = [0x82, 0xa0, 0xa4, 0xa6]\<rparr>"

definition tq1 :: tq where
  "tq1 = \<lparr>tq_hi = [pkt_new], tq_lo = [pkt_new, pkt_digi2, pkt_new]\<rparr>"

definition tq2 :: tq where
  "tq2 = \<lparr>tq_hi = [], tq_lo = pkt_new # replicate 299 pkt_new\<rparr>"






section \<open>Timing setters: frame property\<close>

lemma xmit_set_out_of_range:
  "\<not> (0 \<le> channel \<and> channel < MAX_CHANS) \<Longrightarrow> xmit_set p channel val s = s"
  by (cases p)
     (auto simp add: xmit_set_txdelay_def xmit_set_persist_def xmit_set_slottime_def
        xmit_set_txtail_def xmit_set_fulldup_def)

lemma xmit_set_same:
  "0 \<le> channel \<Longrightarrow> channel < MAX_CHANS \<Longrightarrow> xmit_params_ok s \<Longrightarrow>
   xmit_get p (xmit_set p channel val s) = (xmit_get p s)[nat channel := val]"
  by (cases p)
     (simp_all add: xmit_set_txdelay_def xmit_set_persist_def xmit_set_slottime_def
        xmit_set_txtail_def xmit_set_fulldup_def)

lemma xmit_set_other:
  "q \<noteq> p \<Longrightarrow> xmit_get q (xmit_set p channel val s) = xmit_get q s"
  by (cases p; cases q)
     (simp_all add: xmit_set_txdelay_def xmit_set_persist_def xmit_set_slottime_def
        xmit_set_txtail_def xmit_set_fulldup_def)

lemma xmit_set_bps:
  "xmit_bits_per_sec (xmit_set p channel val s) = xmit_bits_per_sec s"
  by (cases p)
     (simp_all add: xmit_set_txdelay_def xmit_set_persist_def xmit_set_slottime_def
        xmit_set_txtail_def xmit_set_fulldup_def)

lemma xmit_set_ok:
  "xmit_params_ok s \<Longrightarrow> xmit_params_ok (xmit_set p channel val s)"
  by (cases p)
     (simp_all add: xmit_params_ok_def xmit_set_txdelay_def xmit_set_persist_def
        xmit_set_slottime_def xmit_set_txtail_def xmit_set_fulldup_def)

text \<open>
  Claim C10. For each of \<open>xmit_set_txdelay\<close>, \<open>xmit_set_persist\<close>, \<open>xmit_set_slottime\<close>,
  \<open>xmit_set_txtail\<close> and \<open>xmit_set_fulldup\<close>: a channel outside \<open>[0, MAX_CHANS)\<close> leaves the
  whole state as it was; a channel inside stores the value, whatever it is, in that
  channel's slot of that parameter, and every other slot of that parameter, every other
  timing parameter and the bit rates keep their values.
\<close>

theorem xmit_set_frame:
  assumes "xmit_params_ok s"
  shows "(\<not> (0 \<le> channel \<and> channel < MAX_CHANS) \<longrightarrow> xmit_set p channel val s = s) \<and>
         (0 \<le> channel \<and> channel < MAX_CHANS \<longrightarrow>
            xmit_get p (xmit_set p channel val s) ! nat channel = val \<and>
            (\<forall>c. c \<noteq> nat channel \<longrightarrow>
               xmit_get p (xmit_set p channel val s) ! c = xmit_get p s ! c) \<and>
            (\<forall>q. q \<noteq> p \<longrightarrow> xmit_get q (xmit_set p channel val s) = xmit_get q s) \<and>
            xmit_bits_per_sec (xmit_set p channel val s) = xmit_bits_per_sec s \<and>
            xmit_params_ok (xmit_set p channel val s))"
proof (intro conjI impI)
  assume "\<not> (0 \<le> channel \<and> channel < MAX_CHANS)"
  then show "xmit_set p channel val s = s"
    by (rule xmit_set_out_of_range)
next
  assume r: "0 \<le> channel \<and> channel < MAX_CHANS"
  have len: "nat channel < length (xmit_get p s)"
    using assms r by (cases p) (auto simp: xmit_params_ok_def)
  show "xmit_get p (xmit_set p channel val s) ! nat channel = val"
    using r assms len by (simp add: xmit_set_same)
  show "\<forall>c. c \<noteq> nat channel \<longrightarrow>
          xmit_get p (xmit_set p channel val s) ! c = xmit_get p s ! c"
    using r assms by (simp add: xmit_set_same)
  show "\<forall>q. q \<noteq> p \<longrightarrow> xmit_get q (xmit_set p channel val s) = xmit_get q s"
    by (simp add: xmit_set_other)
  show "xmit_bits_per_sec (xmit_set p channel val s) = xmit_bits_per_sec s"
    by (rule xmit_set_bps)
  show "xmit_params_ok (xmit_set p channel val s)"
    using assms by (rule xmit_set_ok)
qed

theorem xmit_set_frame_witness:
  "xmit_params_ok xmit_params0 \<and>
   xmit_set P_persist 7 200 xmit_params0 = xmit_params0 \<and>
   xmit_get P_persist (xmit_set P_persist 2 200 xmit_params0) ! 2 = 200 \<and>
   xmit_get P_persist (xmit_set P_persist 2 200 xmit_params0) ! 3 = 63 \<and>
   xmit_get P_txdelay (xmit_set P_persist 2 200 xmit_params0) = xmit_get P_txdelay xmit_params0"
proof -
  have ok: "xmit_params_ok xmit_params0"
    by (simp add: xmit_params_ok_def xmit_params0_def MAX_CHANS_def MAX_RADIO_CHANS_def
        MAX_ADEVS_def)
  have a: "\<not> (0 \<le> (7::int) \<and> 7 < MAX_CHANS)"
    by (simp add: MAX_CHANS_def MAX_RADIO_CHANS_def MAX_ADEVS_def)
  have b: "0 \<le> (2::int) \<and> 2 < MAX_CHANS"
    by (simp add: MAX_CHANS_def MAX_RADIO_CHANS_def MAX_ADEVS_def)
  have 1: "xmit_set P_persist 7 200 xmit_params0 = xmit_params0"
    using xmit_set_frame [OF ok, of 7 P_persist 200] a by blast
  have 2: "xmit_get P_persist (xmit_set P_persist 2 200 xmit_params0) ! nat 2 = 200"
    using xmit_set_frame [OF ok, of 2 P_persist 200] b by blast
  have 3: "xmit_get P_persist (xmit_set P_persist 2 200 xmit_params0) ! 3 =
           xmit_get P_persist xmit_params0 ! 3"
    using xmit_set_frame [OF ok, of 2 P_persist 200] b by simp
  have 4: "xmit_get P_txdelay (xmit_set P_persist 2 200 xmit_params0) =
           xmit_get P_txdelay xmit_params0"
    using xmit_set_frame [OF ok, of 2 P_persist 200] b by blast
  have 5: "xmit_get P_persist xmit_params0 ! 3 = 63"
    by (simp add: xmit_params0_def)
  have 6: "nat 2 = (2::nat)"
    by simp
  show ?thesis
    using ok 1 2 3 4 5 unfolding 6 by simp
qed

section \<open>Bits of the 8 bit shift registers\<close>

lemma lt8_cases: "n < 8 \<Longrightarrow> n \<in> {0, 1, 2, 3, 4, 5, 6, 7 :: nat}"
  by auto

lemma all8:
  "(\<forall>n<8. P n) \<longleftrightarrow> P 0 \<and> P 1 \<and> P 2 \<and> P 3 \<and> P 4 \<and> P 5 \<and> P 6 \<and> P (7::nat)"
  (is "?l \<longleftrightarrow> ?r")
proof
  assume ?l
  then show ?r by simp
next
  assume r: ?r
  show ?l
  proof (intro allI impI)
    fix n :: nat
    assume "n < 8"
    from lt8_cases [OF this] r show "P n" by auto
  qed
qed

lemma bit_w80: "bit (0x80 :: 8 word) n \<longleftrightarrow> n = 7"
proof (cases "n < 8")
  case True
  from lt8_cases [OF this] show ?thesis by auto
next
  case False
  then have "\<not> bit (0x80 :: 8 word) n"
    by (auto dest: bit_imp_le_length)
  with False show ?thesis by simp
qed

lemma bit_128_int: "bit (128::int) n \<longleftrightarrow> n = 7"
proof -
  have "(128::int) = 2 ^ 7" by simp
  then show ?thesis by (simp only: bit_exp_iff) simp
qed

lemma bit_128_nat: "bit (128::nat) n \<longleftrightarrow> n = 7"
proof -
  have "(128::nat) = 2 ^ 7" by simp
  then show ?thesis by (simp only: bit_exp_iff) simp
qed

lemma bit_shift_in8:
  "bit (shift_in8 w d) n \<longleftrightarrow> (if n = 7 then d else n < 7 \<and> bit w (Suc n))"
  unfolding shift_in8_def Let_def
  by (auto simp: bit_or_iff bit_drop_bit_eq bit_w80 bit_128_int bit_128_nat
      dest: bit_imp_le_length)

lemma word8_eq_iff: "(v :: 8 word) = w \<longleftrightarrow> (\<forall>n<8. bit v n = bit w n)"
  by (auto intro: bit_word_eqI)

lemma w7e_iff:
  "(w :: 8 word) = 0x7e \<longleftrightarrow>
     \<not> bit w 0 \<and> bit w 1 \<and> bit w 2 \<and> bit w 3 \<and> bit w 4 \<and> bit w 5 \<and> bit w 6 \<and> \<not> bit w 7"
  by (simp add: word8_eq_iff all8)

lemma wfe_iff:
  "(w :: 8 word) = 0xfe \<longleftrightarrow>
     \<not> bit w 0 \<and> bit w 1 \<and> bit w 2 \<and> bit w 3 \<and> bit w 4 \<and> bit w 5 \<and> bit w 6 \<and> bit w 7"
  by (simp add: word8_eq_iff all8)

lemma w7c_iff:
  "(w :: 8 word) AND 0xfc = 0x7c \<longleftrightarrow>
     bit w 2 \<and> bit w 3 \<and> bit w 4 \<and> bit w 5 \<and> bit w 6 \<and> \<not> bit w 7"
  by (simp add: word8_eq_iff all8 bit_simps)

section \<open>Data carrier detect\<close>

lemma dcd_scan_iff:
  "dcd_scan row n sc \<longleftrightarrow> (\<exists>k. sc \<le> k \<and> k < n \<and> row ! nat k \<noteq> 0)"
proof (induction row n sc rule: dcd_scan.induct)
  case (1 row n sc)
  show ?case
  proof (cases "sc < n")
    case False
    then show ?thesis by (subst dcd_scan.simps) auto
  next
    case True
    show ?thesis
    proof (cases "row ! nat sc \<noteq> 0")
      case True
      with \<open>sc < n\<close> show ?thesis by (subst dcd_scan.simps) auto
    next
      case False
      then have z: "row ! nat sc = 0" by simp
      have "dcd_scan row n sc = dcd_scan row n (sc + 1)"
        using True z by (subst dcd_scan.simps) simp
      also have "\<dots> \<longleftrightarrow> (\<exists>k. sc + 1 \<le> k \<and> k < n \<and> row ! nat k \<noteq> 0)"
        using "1.IH" True z by simp
      also have "\<dots> \<longleftrightarrow> (\<exists>k. sc \<le> k \<and> k < n \<and> row ! nat k \<noteq> 0)"
      proof
        assume "\<exists>k. sc + 1 \<le> k \<and> k < n \<and> row ! nat k \<noteq> 0"
        then obtain k where "sc + 1 \<le> k" "k < n" "row ! nat k \<noteq> 0" by blast
        then have "sc \<le> k \<and> k < n \<and> row ! nat k \<noteq> 0" by simp
        then show "\<exists>k. sc \<le> k \<and> k < n \<and> row ! nat k \<noteq> 0" by blast
      next
        assume "\<exists>k. sc \<le> k \<and> k < n \<and> row ! nat k \<noteq> 0"
        then obtain k where k: "sc \<le> k" "k < n" "row ! nat k \<noteq> 0" by blast
        with z have "k \<noteq> sc" by auto
        with k have "sc + 1 \<le> k \<and> k < n \<and> row ! nat k \<noteq> 0" by simp
        then show "\<exists>k. sc + 1 \<le> k \<and> k < n \<and> row ! nat k \<noteq> 0" by blast
      qed
      finally show ?thesis .
    qed
  qed
qed

text \<open>
  What \<open>hdlc_rec_data_detect_any\<close> computes: only the sub-channel slots below
  \<open>num_subchan[chan]\<close> are read, besides the transmit inhibit input.
\<close>

lemma hdlc_rec_data_detect_any_iff:
  assumes "0 \<le> chan" "chan < MAX_CHANS"
  shows "hdlc_rec_data_detect_any inp D chan =
     Some (if (\<exists>sc. 0 \<le> sc \<and> sc < num_subchan D ! nat chan \<and>
                 composite_dcd D ! nat chan ! nat sc \<noteq> 0) \<or> inp chan = 1
           then 1 else 0)"
  using assms by (auto simp: hdlc_rec_data_detect_any_def dcd_scan_iff)

text \<open>
  Claim C7, at the input where the code departs from it. After \<open>hdlc_rec_init\<close> with one
  sub-channel on channel 0, \<open>dcd_change(0, MAX_SUBCHANS, 0, 1)\<close> (the DTMF decoder
  reporting a tone) sets bit 0 of the DTMF slot of channel 0's row and calls no
  \<open>ptt_set\<close>; with the transmit inhibit input not asserted,
  \<open>hdlc_rec_data_detect_any(0)\<close> still returns 0, although a bit of the row is 1.
\<close>

theorem dcd_dtmf_slot_not_detected:
  "(case hdlc_rec_init audio0 of
      None \<Rightarrow> False
    | Some D0 \<Rightarrow>
        (case dcd_change (\<lambda>_. 0) D0 0 MAX_SUBCHANS 0 1 of
           None \<Rightarrow> False
         | Some (D1, p) \<Rightarrow>
             bit (composite_dcd D1 ! 0 ! nat MAX_SUBCHANS) 0 \<and> p = None \<and>
             hdlc_rec_data_detect_any (\<lambda>_. 0) D1 0 = Some 0))"
  by code_simp

section \<open>State invariants of the HDLC decoder\<close>

lemma hdlc_rec_bit_inv7:
  assumes "hdlc_state_inv7 L H"
  shows "hdlc_state_inv7 L (fst (hdlc_rec_bit L H raw clobber))"
  using assms
  by (auto simp: hdlc_state_inv7_def hdlc_rec_bit_def Let_def)

lemma hdlc_rec_bits_inv7:
  "hdlc_state_inv7 L H \<Longrightarrow> hdlc_state_inv7 L (fst (hdlc_rec_bits L H inputs))"
proof (induction inputs arbitrary: H)
  case Nil
  then show ?case by simp
next
  case (Cons a inputs)
  obtain raw clobber where a: "a = (raw, clobber)"
    by (cases a)
  obtain H' ho where s: "hdlc_rec_bit L H raw clobber = (H', ho)"
    by (cases "hdlc_rec_bit L H raw clobber")
  have "hdlc_state_inv7 L H'"
    using hdlc_rec_bit_inv7 [OF Cons.prems, of raw clobber] s by simp
  from Cons.IH [OF this] show ?case
    using a s by (cases "hdlc_rec_bits L H' inputs") simp
qed

lemma hdlc_rec_init_state_inv7:
  "0 \<le> MAX_FRAME_LEN L \<Longrightarrow> hdlc_state_inv7 L (hdlc_rec_init_state L)"
  by (simp add: hdlc_state_inv7_def hdlc_rec_init_state_def)

lemma hdlc_state_inv7_imp_inv: "hdlc_state_inv7 L H \<Longrightarrow> hdlc_state_inv L H"
  by (auto simp: hdlc_state_inv7_def hdlc_state_inv_def)

lemma hdlc_rec_bit_full_keeps:
  "frame_len H = MAX_FRAME_LEN L \<Longrightarrow>
   frame_buf (fst (hdlc_rec_bit L H raw clobber)) = frame_buf H"
  by (auto simp: hdlc_rec_bit_def Let_def)

text \<open>
  Claim C8. From the state set up by \<open>hdlc_rec_init\<close>, after any sequence of calls of
  \<open>hdlc_rec_bit\<close> (any raw bits, with or without injected bit errors), \<open>olen\<close> is -1 or
  in \<open>[0, 8]\<close>, \<open>frame_len\<close> is in \<open>[0, MAX_FRAME_LEN]\<close> and the frame buffer has kept its
  \<open>MAX_FRAME_LEN\<close> octets; and a call made when \<open>frame_len = MAX_FRAME_LEN\<close> stores no
  octet: the frame buffer stays as it is.
\<close>

theorem hdlc_rec_bits_invariants:
  assumes "0 \<le> MAX_FRAME_LEN L"
  shows "hdlc_state_inv L (fst (hdlc_rec_bits L (hdlc_rec_init_state L) inputs)) \<and>
         (frame_len (fst (hdlc_rec_bits L (hdlc_rec_init_state L) inputs)) = MAX_FRAME_LEN L
            \<longrightarrow> frame_buf (fst (hdlc_rec_bit L
                    (fst (hdlc_rec_bits L (hdlc_rec_init_state L) inputs)) raw clobber)) =
                 frame_buf (fst (hdlc_rec_bits L (hdlc_rec_init_state L) inputs)))"
  using hdlc_state_inv7_imp_inv [OF hdlc_rec_bits_inv7 [OF hdlc_rec_init_state_inv7 [OF assms]]]
    hdlc_rec_bit_full_keeps
  by blast

theorem hdlc_rec_bits_invariants_witness:
  "0 \<le> MAX_FRAME_LEN limits0 \<and>
   hdlc_state_inv limits0
     (fst (hdlc_rec_bits limits0 (hdlc_rec_init_state limits0)
        [(True, False), (True, False), (False, True)]))"
proof -
  have h: "0 \<le> MAX_FRAME_LEN limits0"
    by (simp add: MAX_FRAME_LEN_def limits0_def)
  show ?thesis
    using h hdlc_rec_bits_invariants [OF h, of "[(True, False), (True, False), (False, True)]"]
    by simp
qed

section \<open>De-stuffing\<close>

text \<open>
  Claim C9. When, after the new data bit has been shifted in, the six bits of the pattern
  detector selected by the mask \<open>0xfc\<close> are \<open>011111\<close> (the detector reads \<open>011111xx\<close>,
  which covers \<open>0111110x\<close>) and the detector is not the flag \<open>0x7e\<close>, the current data bit is
  a zero and it is dropped: the octet accumulator, \<open>olen\<close>, the frame buffer and
  \<open>frame_len\<close> are unchanged and nothing is handed over.
\<close>

theorem hdlc_rec_bit_destuff:
  assumes "shift_in8 (pat_det H) ((if clobber then \<not> raw else raw) = prev_raw H) AND 0xfc = 0x7c"
    and "shift_in8 (pat_det H) ((if clobber then \<not> raw else raw) = prev_raw H) \<noteq> 0x7e"
  shows "((if clobber then \<not> raw else raw) \<noteq> prev_raw H) \<and>
         oacc (fst (hdlc_rec_bit L H raw clobber)) = oacc H \<and>
         olen (fst (hdlc_rec_bit L H raw clobber)) = olen H \<and>
         frame_buf (fst (hdlc_rec_bit L H raw clobber)) = frame_buf H \<and>
         frame_len (fst (hdlc_rec_bit L H raw clobber)) = frame_len H \<and>
         snd (hdlc_rec_bit L H raw clobber) = None"
proof -
  have z: "(if clobber then \<not> raw else raw) \<noteq> prev_raw H"
    using assms(1) by (auto simp: w7c_iff bit_shift_in8)
  have ne: "shift_in8 (pat_det H) ((if clobber then \<not> raw else raw) = prev_raw H) \<noteq> 0xfe"
    using assms(1) by (auto simp: w7c_iff wfe_iff)
  show ?thesis
    using z assms ne by (auto simp: hdlc_rec_bit_def Let_def)
qed

theorem hdlc_rec_bit_destuff_witness:
  "shift_in8 (0xf9 :: 8 word) False AND 0xfc = 0x7c \<and>
   shift_in8 (0xf9 :: 8 word) False \<noteq> 0x7e \<and>
   olen (fst (hdlc_rec_bit limits0
      ((hdlc_rec_init_state limits0)\<lparr>pat_det := 0xf9, olen := 3\<rparr>) True False)) = 3"
proof -
  have a: "shift_in8 (0xf9 :: 8 word) False AND 0xfc = 0x7c"
    by (simp add: shift_in8_def)
  have b: "shift_in8 (0xf9 :: 8 word) False \<noteq> 0x7e"
    by (simp add: shift_in8_def)
  show ?thesis
    using a b
      hdlc_rec_bit_destuff [of "(hdlc_rec_init_state limits0)\<lparr>pat_det := 0xf9, olen := 3\<rparr>"
        False True limits0]
    by (simp add: hdlc_rec_init_state_def)
qed

section \<open>The serializer: flags, bit stuffing, NRZI\<close>

lemma emit_Nil [simp]: "emit S [] = S"
  by (simp add: emit_def)

lemma emit_Cons [simp]: "emit S (d # ds) = emit (send_bit_nrzi S (if d then 1 else 0)) ds"
  by (simp add: emit_def)

lemma emit_append: "emit S (a @ b) = emit (emit S a) b"
  by (simp add: emit_def)

lemma tone_emit: "tone (emit S ds) = tone S @ nrzi_encode (output_chan S) ds"
  by (induction ds arbitrary: S) (auto simp: send_bit_nrzi_def Let_def)

lemma count_emit: "number_of_bits_sent (emit S ds) = number_of_bits_sent S + int (length ds)"
  by (induction ds arbitrary: S) (auto simp: send_bit_nrzi_def Let_def)

lemma stuff_emit: "stuff (emit S ds) = stuff S"
  by (induction ds arbitrary: S) (auto simp: send_bit_nrzi_def Let_def)

lemma send_bit_nrzi_stuff_update:
  "send_bit_nrzi (S\<lparr>stuff := k\<rparr>) b = (send_bit_nrzi S b)\<lparr>stuff := k\<rparr>"
  by (simp add: send_bit_nrzi_def Let_def)

lemma emit_stuff_update: "emit (S\<lparr>stuff := k\<rparr>) ds = (emit S ds)\<lparr>stuff := k\<rparr>"
proof (induction ds arbitrary: S)
  case Nil
  show ?case by simp
next
  case (Cons d ds)
  show ?case
    by (simp only: emit_Cons send_bit_nrzi_stuff_update Cons)
qed

lemma emit_count_update: "emit (S\<lparr>number_of_bits_sent := k\<rparr>) ds = (emit S ds)\<lparr>number_of_bits_sent := k + int (length ds)\<rparr>"
  by (induction ds arbitrary: S k) (auto simp: send_bit_nrzi_def Let_def)

lemma int_bits_Suc: "int_bits (Suc n) x = bit x 0 # int_bits n (drop_bit 1 x)"
proof -
  have "[0..<Suc n] = 0 # map Suc [0..<n]"
    by (simp add: upt_conv_Cons map_Suc_upt del: upt_Suc)
  then show ?thesis
    by (simp add: int_bits_def bit_drop_bit_eq comp_def del: upt_Suc)
qed

lemma and1: "(x::int) AND 1 = (if bit x 0 then 1 else 0)"
  by (simp add: and_one_eq bit_0 mod_2_eq_odd)

lemma send_control_loop_emit: "send_control_loop n x S = emit S (int_bits n x)"
proof (induction n arbitrary: x S)
  case 0
  then show ?case by (simp add: int_bits_def)
next
  case (Suc n)
  show ?case
    by (simp only: send_control_loop.simps Suc int_bits_Suc emit_Cons and1)
qed

lemma send_data_loop_emit:
  "stuff S = int k \<Longrightarrow> k < 5 \<Longrightarrow>
   send_data_loop n x S =
     (emit S (bit_stuff k (int_bits n x)))\<lparr>stuff := int (stuff_count k (int_bits n x))\<rparr>"
proof (induction n arbitrary: x S k)
  case 0
  then show ?case by (simp add: int_bits_def)
next
  case (Suc n)
  show ?case
  proof (cases "bit x 0")
    case False
    let ?S2 = "(send_bit_nrzi S 0)\<lparr>stuff := 0\<rparr>"
    have st: "stuff ?S2 = int 0" by simp
    have "send_data_loop (Suc n) x S = send_data_loop n (drop_bit 1 x) ?S2"
      using False by (simp add: and1 Let_def)
    also have "\<dots> = (emit ?S2 (bit_stuff 0 (int_bits n (drop_bit 1 x))))
        \<lparr>stuff := int (stuff_count 0 (int_bits n (drop_bit 1 x)))\<rparr>"
      by (rule Suc.IH [OF st]) simp
    finally show ?thesis
      using False by (simp add: int_bits_Suc emit_stuff_update)
  next
    case True
    show ?thesis
    proof (cases "Suc k = 5")
      case False
      let ?S2 = "(send_bit_nrzi S 1)\<lparr>stuff := stuff S + 1\<rparr>"
      have st: "stuff ?S2 = int (Suc k)" using Suc.prems by (simp add: send_bit_nrzi_def Let_def)
      have k: "Suc k < 5" using False Suc.prems by simp
      have "send_data_loop (Suc n) x S = send_data_loop n (drop_bit 1 x) ?S2"
        using True False Suc.prems by (simp add: and1 Let_def send_bit_nrzi_def)
      also have "\<dots> = (emit ?S2 (bit_stuff (Suc k) (int_bits n (drop_bit 1 x))))
        \<lparr>stuff := int (stuff_count (Suc k) (int_bits n (drop_bit 1 x)))\<rparr>"
        by (rule Suc.IH [OF st k])
      finally show ?thesis
        using True False by (simp add: int_bits_Suc emit_stuff_update)
    next
      case k5: True
      let ?S2 = "(send_bit_nrzi (send_bit_nrzi S 1) 0)\<lparr>stuff := 0\<rparr>"
      have st: "stuff ?S2 = int 0" by simp
      have "send_data_loop (Suc n) x S = send_data_loop n (drop_bit 1 x) ?S2"
        using True k5 Suc.prems by (simp add: and1 Let_def send_bit_nrzi_def)
      also have "\<dots> = (emit ?S2 (bit_stuff 0 (int_bits n (drop_bit 1 x))))
        \<lparr>stuff := int (stuff_count 0 (int_bits n (drop_bit 1 x)))\<rparr>"
        by (rule Suc.IH [OF st]) simp
      finally show ?thesis
        using True k5 by (simp add: int_bits_Suc emit_stuff_update)
    qed
  qed
qed

lemma stuff_count_lt: "k < 5 \<Longrightarrow> stuff_count k ds < 5"
  by (induction ds arbitrary: k) auto

lemma bit_stuff_append:
  "bit_stuff k (a @ b) = bit_stuff k a @ bit_stuff (stuff_count k a) b"
  by (induction a arbitrary: k) auto

lemma stuff_count_append:
  "stuff_count k (a @ b) = stuff_count (stuff_count k a) b"
  by (induction a arbitrary: k) auto

lemma run_lt_bit_stuff: "k < 5 \<Longrightarrow> run_lt 6 k (bit_stuff k ds)"
  by (induction ds arbitrary: k) auto

lemma run_lt_less: "run_lt n c vs \<Longrightarrow> c < n"
  by (cases vs) auto

lemma run_lt_replicate: "run_lt n c (replicate m True @ vs) \<Longrightarrow> c + m < n"
proof (induction m arbitrary: c)
  case 0
  then show ?case by (simp add: run_lt_less)
next
  case (Suc m)
  then have "run_lt n (Suc c) (replicate m True @ vs)" by simp
  from Suc.IH [OF this] show ?case by simp
qed

lemma run_lt_tail: "run_lt n c (a @ b) \<Longrightarrow> \<exists>c'. run_lt n c' b"
  by (induction a arbitrary: c) (auto split: if_splits)

lemma run_lt_no_run: "run_lt n c ys \<Longrightarrow> ys \<noteq> us @ replicate n True @ vs"
proof
  assume a: "run_lt n c ys" "ys = us @ replicate n True @ vs"
  then obtain c' where "run_lt n c' (replicate n True @ vs)"
    using run_lt_tail by blast
  from run_lt_replicate [OF this] show False by simp
qed

lemma nrzi_decode_encode: "nrzi_decode s (nrzi_encode s ds) = ds"
  by (induction ds arbitrary: s) (auto simp: Let_def)

lemma int_bits_uint: "int_bits 8 (uint (b :: 8 word)) = byte_bits b"
  by (simp add: int_bits_def byte_bits_def bit_uint_iff)


lemma int_bits_flag: "int_bits 8 0x7e = flag_bits"
  by (simp add: int_bits_def flag_bits_def upt_rec)

lemma send_control_nrzi_flag: "send_control_nrzi S 0x7e = (emit S flag_bits)\<lparr>stuff := 0\<rparr>"
  by (simp only: send_control_nrzi_def send_control_loop_emit int_bits_flag)

lemma send_data_nrzi_emit:
  "stuff S = int k \<Longrightarrow> k < 5 \<Longrightarrow>
   send_data_nrzi S x =
     (emit S (bit_stuff k (int_bits 8 x)))\<lparr>stuff := int (stuff_count k (int_bits 8 x))\<rparr>"
  unfolding send_data_nrzi_def by (rule send_data_loop_emit)

lemma send_octets_emit:
  "stuff S = int k \<Longrightarrow> k < 5 \<Longrightarrow>
   foldl send_data_nrzi S xs =
     (emit S (bit_stuff k (concat (map (int_bits 8) xs))))
       \<lparr>stuff := int (stuff_count k (concat (map (int_bits 8) xs)))\<rparr>"
proof (induction xs arbitrary: S k)
  case Nil
  then show ?case by simp
next
  case (Cons x xs)
  let ?k' = "stuff_count k (int_bits 8 x)"
  let ?S' = "send_data_nrzi S x"
  have e: "?S' = (emit S (bit_stuff k (int_bits 8 x)))\<lparr>stuff := int ?k'\<rparr>"
    by (rule send_data_nrzi_emit [OF Cons.prems])
  have st: "stuff ?S' = int ?k'"
    by (simp add: e)
  have lt: "?k' < 5"
    by (rule stuff_count_lt [OF Cons.prems(2)])
  have "foldl send_data_nrzi S (x # xs) = foldl send_data_nrzi ?S' xs"
    by simp
  also have "\<dots> = (emit ?S' (bit_stuff ?k' (concat (map (int_bits 8) xs))))
       \<lparr>stuff := int (stuff_count ?k' (concat (map (int_bits 8) xs)))\<rparr>"
    by (rule Cons.IH [OF st lt])
  also have "\<dots> = (emit S (bit_stuff k (concat (map (int_bits 8) (x # xs)))))
       \<lparr>stuff := int (stuff_count k (concat (map (int_bits 8) (x # xs))))\<rparr>"
    by (simp add: e emit_stuff_update bit_stuff_append stuff_count_append emit_append)
  finally show ?case .
qed

lemma bit_255_int: "bit (255::int) n \<longleftrightarrow> n < 8"
proof -
  have "(255::int) = mask 8" by (simp add: mask_eq_exp_minus_1)
  then show ?thesis by (simp only: bit_mask_iff) simp
qed

lemma int_bits_fcs_lo: "int_bits 8 (uint (f :: 16 word) AND 0xff) = byte_bits (ucast f)"
  by (simp add: int_bits_def byte_bits_def bit_and_iff bit_uint_iff bit_ucast_iff bit_255_int)

lemma int_bits_fcs_hi: "int_bits 8 (drop_bit 8 (uint (f :: 16 word)) AND 0xff) = byte_bits (ucast (drop_bit 8 f))"
  by (simp add: int_bits_def byte_bits_def bit_and_iff bit_uint_iff bit_ucast_iff bit_255_int bit_drop_bit_eq)

lemma int_bits_nfcs_lo: "int_bits 8 (NOT (uint (f :: 16 word)) AND 0xff) = byte_bits (ucast (NOT f))"
  by (simp add: int_bits_def byte_bits_def bit_and_iff bit_uint_iff bit_ucast_iff bit_255_int bit_not_iff)

lemma int_bits_nfcs_hi: "int_bits 8 (drop_bit 8 (NOT (uint (f :: 16 word))) AND 0xff) = byte_bits (ucast (drop_bit 8 (NOT f)))"
  by (simp add: int_bits_def byte_bits_def bit_and_iff bit_uint_iff bit_ucast_iff bit_255_int bit_drop_bit_eq bit_not_iff)

lemma frame_ints_bits:
  "concat (map (int_bits 8)
     (map uint fbuf @
      (if bad_fcs then [NOT (uint (fcs fbuf)) AND 0xff, drop_bit 8 (NOT (uint (fcs fbuf))) AND 0xff]
       else [uint (fcs fbuf) AND 0xff, drop_bit 8 (uint (fcs fbuf)) AND 0xff]))) =
   frame_data_bits fcs fbuf bad_fcs"
  by (simp add: frame_data_bits_def fcs_octets_def int_bits_fcs_lo int_bits_fcs_hi
      int_bits_nfcs_lo int_bits_nfcs_hi int_bits_uint comp_def)

lemma send_frame_emit:
  "ax25_only_hdlc_send_frame fcs S fbuf bad_fcs =
     (16 + int (length (bit_stuff 0 (frame_data_bits fcs fbuf bad_fcs))),
      (emit S (flag_bits @ bit_stuff 0 (frame_data_bits fcs fbuf bad_fcs) @ flag_bits))
        \<lparr>stuff := 0,
         number_of_bits_sent := 16 + int (length (bit_stuff 0 (frame_data_bits fcs fbuf bad_fcs)))\<rparr>)"
proof -
  define S0 where "S0 = S\<lparr>number_of_bits_sent := 0\<rparr>"
  define S1 where "S1 = send_control_nrzi S0 0x7e"
  define xs where "xs = map uint fbuf @
      (if bad_fcs then [NOT (uint (fcs fbuf)) AND 0xff, drop_bit 8 (NOT (uint (fcs fbuf))) AND 0xff]
       else [uint (fcs fbuf) AND 0xff, drop_bit 8 (uint (fcs fbuf)) AND 0xff])"
  define st where "st = bit_stuff 0 (frame_data_bits fcs fbuf bad_fcs)"
  define S3 where "S3 = foldl send_data_nrzi S1 xs"
  have s1: "S1 = (emit S0 flag_bits)\<lparr>stuff := 0\<rparr>"
    unfolding S1_def by (rule send_control_nrzi_flag)
  have st1: "stuff S1 = int 0"
    by (simp add: s1)
  have bits: "concat (map (int_bits 8) xs) = frame_data_bits fcs fbuf bad_fcs"
    unfolding xs_def by (rule frame_ints_bits)
  have s3: "S3 = (emit S1 st)\<lparr>stuff := int (stuff_count 0 (frame_data_bits fcs fbuf bad_fcs))\<rparr>"
    using send_octets_emit [OF st1, of xs] unfolding S3_def st_def bits by simp
  have unf: "ax25_only_hdlc_send_frame fcs S fbuf bad_fcs =
      (number_of_bits_sent (send_control_nrzi S3 0x7e), send_control_nrzi S3 0x7e)"
    by (simp add: ax25_only_hdlc_send_frame_def Let_def foldl_map S3_def S1_def S0_def xs_def)
  have s4: "send_control_nrzi S3 0x7e = (emit S0 (flag_bits @ st @ flag_bits))\<lparr>stuff := 0\<rparr>"
    by (simp add: send_control_nrzi_flag s3 s1 emit_stuff_update emit_append)
  have s5: "emit S0 (flag_bits @ st @ flag_bits) =
      (emit S (flag_bits @ st @ flag_bits))\<lparr>number_of_bits_sent := 0 + int (length (flag_bits @ st @ flag_bits))\<rparr>"
    unfolding S0_def by (rule emit_count_update)
  show ?thesis
    unfolding unf s4 s5 st_def [symmetric] by (simp add: flag_bits_def)
qed

lemma length_nrzi_encode: "length (nrzi_encode s ds) = length ds"
  by (induction ds arbitrary: s) (auto simp: Let_def)

lemma length_bit_stuff: "length ds \<le> length (bit_stuff k ds)"
  by (induction ds arbitrary: k) (auto intro: le_SucI)

lemma length_flag_bits: "length flag_bits = 8"
  by (simp add: flag_bits_def)

lemma length_byte_bits: "length (byte_bits b) = 8"
  by (simp add: byte_bits_def)

lemma length_concat_byte_bits: "length (concat (map byte_bits bs)) = 8 * length bs"
  by (induction bs) (auto simp: length_byte_bits)

lemma length_frame_data_bits:
  "length (frame_data_bits fcs fbuf bad_fcs) = 8 * (length fbuf + 2)"
  by (simp add: frame_data_bits_def length_concat_byte_bits fcs_octets_def)


text \<open>
  Claim C2. For every frame buffer, every line state and every value of the ones counter
  before the call, the bits \<open>ax25_only_hdlc_send_frame\<close> gives to the tone generator are
  the NRZI encoding of: the flag, the bit-stuffed data bits of the octets and of the two
  checksum octets (least significant bit first, starting with a count of zero after the
  flag), the flag. Decoding NRZI from the line state before the call gives these data
  bits back, the stuffed section has no six one bits in a row, the returned number
  counts every bit given out (16 flag bits and the stuffed section, which is at least as
  long as the data), and the ones counter is zero after the closing flag.
\<close>

theorem ax25_only_hdlc_send_frame_stuffed:
  "tone (snd (ax25_only_hdlc_send_frame fcs S fbuf bad_fcs)) =
     tone S @ nrzi_encode (output_chan S)
       (flag_bits @ bit_stuff 0 (frame_data_bits fcs fbuf bad_fcs) @ flag_bits) \<and>
   nrzi_decode (output_chan S)
     (drop (length (tone S)) (tone (snd (ax25_only_hdlc_send_frame fcs S fbuf bad_fcs)))) =
     flag_bits @ bit_stuff 0 (frame_data_bits fcs fbuf bad_fcs) @ flag_bits \<and>
   (\<forall>us vs. bit_stuff 0 (frame_data_bits fcs fbuf bad_fcs) \<noteq> us @ replicate 6 True @ vs) \<and>
   fst (ax25_only_hdlc_send_frame fcs S fbuf bad_fcs) =
     int (length (tone (snd (ax25_only_hdlc_send_frame fcs S fbuf bad_fcs)))) -
     int (length (tone S)) \<and>
   fst (ax25_only_hdlc_send_frame fcs S fbuf bad_fcs) =
     16 + int (length (bit_stuff 0 (frame_data_bits fcs fbuf bad_fcs))) \<and>
   8 * (length fbuf + 2) \<le> length (bit_stuff 0 (frame_data_bits fcs fbuf bad_fcs)) \<and>
   stuff (snd (ax25_only_hdlc_send_frame fcs S fbuf bad_fcs)) = 0"
proof -
  let ?st = "bit_stuff 0 (frame_data_bits fcs fbuf bad_fcs)"
  let ?R = "ax25_only_hdlc_send_frame fcs S fbuf bad_fcs"
  have t: "tone (snd ?R) = tone S @ nrzi_encode (output_chan S) (flag_bits @ ?st @ flag_bits)"
    by (simp add: send_frame_emit tone_emit)
  have d: "nrzi_decode (output_chan S) (drop (length (tone S)) (tone (snd ?R))) =
      flag_bits @ ?st @ flag_bits"
    unfolding t by (simp add: nrzi_decode_encode)
  have r: "\<forall>us vs. ?st \<noteq> us @ replicate 6 True @ vs"
    using run_lt_no_run [OF run_lt_bit_stuff [of 0]] by simp
  have n: "fst ?R = 16 + int (length ?st)"
    by (simp add: send_frame_emit)
  have l: "int (length (tone (snd ?R))) - int (length (tone S)) = 16 + int (length ?st)"
    unfolding t by (simp add: length_nrzi_encode length_flag_bits)
  have g: "8 * (length fbuf + 2) \<le> length ?st"
    using length_bit_stuff [of "frame_data_bits fcs fbuf bad_fcs" 0]
    by (simp add: length_frame_data_bits)
  have z: "stuff (snd ?R) = 0"
    by (simp add: send_frame_emit)
  show ?thesis
    using t d r n l g z by simp
qed

section \<open>The transmit scheduler\<close>

lemma ax25_only_pos: "fst (ax25_only_hdlc_send_frame f S fbuf bad) > 0"
  by (simp add: send_frame_emit)

lemma layer2_send_frame_pos: "fst (layer2_send_frame E S pp bad) > 0"
  by (auto simp: layer2_send_frame_def ax25_only_pos split: prod.splits)

lemma send_one_frame_pos:
  "\<not> ax25_is_null_frame pp \<Longrightarrow> fst (send_one_frame E S p pp) > 0"
  by (simp add: send_one_frame_def layer2_send_frame_pos)

lemma bundle_loop_full:
  "\<not> numframe < max_bundle \<Longrightarrow> bundle_loop E max_bundle numframe Q S ev = (Q, S, numframe, ev)"
  by (subst bundle_loop.simps) simp

lemma bundle_loop_digi:
  "next_frame Q = Some pp \<Longrightarrow> frame_flavor pp = FLAVOR_APRS_DIGI \<Longrightarrow>
   bundle_loop E max_bundle numframe Q S ev = (Q, S, numframe, ev)"
  by (subst bundle_loop.simps) (auto simp: next_frame_def split: option.splits)

lemma bundle_loop_none:
  "next_frame Q = None \<Longrightarrow> bundle_loop E max_bundle numframe Q S ev = (Q, S, numframe, ev)"
  by (subst bundle_loop.simps) (auto simp: next_frame_def split: option.splits)

lemma bundle_loop_step:
  assumes "numframe < max_bundle" "next_frame Q = Some pp"
    "frame_flavor pp \<noteq> FLAVOR_APRS_DIGI"
  shows "bundle_loop E max_bundle numframe Q S ev =
     bundle_loop E max_bundle
       (if fst (send_one_frame E S (next_prio Q) pp) > 0 then numframe + 1 else numframe)
       (tq_drop Q) (snd (send_one_frame E S (next_prio Q) pp))
       (ev @ [FRAME (next_prio Q) pp (fst (send_one_frame E S (next_prio Q) pp)), DELETE pp])"
proof (cases "tq_hi Q")
  case Nil
  with assms(2) obtain rest where lo: "tq_lo Q = pp # rest"
    by (auto simp: next_frame_def tq_peek_def split: list.splits)
  show ?thesis
    using assms Nil lo
    by (subst bundle_loop.simps)
       (auto simp: tq_peek_def tq_remove_def next_prio_def tq_drop_def
          split: flavor_t.splits prod.splits)
next
  case (Cons a rest)
  with assms(2) have a: "a = pp"
    by (auto simp: next_frame_def tq_peek_def)
  show ?thesis
    using assms Cons a
    by (subst bundle_loop.simps)
       (auto simp: tq_peek_def tq_remove_def next_prio_def tq_drop_def
          split: flavor_t.splits prod.splits)
qed

lemma tq_drop_count: "next_frame Q = Some pp \<Longrightarrow> tq_count (tq_drop Q) < tq_count Q"
  by (auto simp: next_frame_def tq_peek_def tq_drop_def tq_remove_def next_prio_def tq_count_def
      split: list.splits)

lemma frames_of_append: "frames_of (a @ b) = frames_of a @ frames_of b"
  by (induction a rule: frames_of.induct) auto

lemma bundle_loop_count:
  "bundle_loop E max_bundle numframe Q S ev = (Q', S', numframe', ev') \<Longrightarrow>
   \<exists>new. ev' = ev @ new \<and> numframe' = numframe + int (length (filter sent_frame new)) \<and>
     (numframe \<le> max_bundle \<longrightarrow> numframe' \<le> max_bundle) \<and>
     (\<forall>q \<in> set (frames_of new). frame_flavor q \<noteq> FLAVOR_APRS_DIGI) \<and>
     (\<forall>v. PTT v \<notin> set new)"
proof (induction "tq_count Q" arbitrary: Q S ev numframe rule: less_induct)
  case less
  show ?case
  proof (cases "numframe < max_bundle")
    case False
    then show ?thesis using less.prems by (simp add: bundle_loop_full)
  next
    case lt: True
    show ?thesis
    proof (cases "next_frame Q")
      case None
      then show ?thesis using less.prems by (simp add: bundle_loop_none)
    next
      case (Some pp)
      show ?thesis
      proof (cases "frame_flavor pp = FLAVOR_APRS_DIGI")
        case True
        then show ?thesis using less.prems bundle_loop_digi [OF Some True] by simp
      next
        case False
        let ?nb = "fst (send_one_frame E S (next_prio Q) pp)"
        let ?n1 = "if ?nb > 0 then numframe + 1 else numframe"
        let ?e = "[FRAME (next_prio Q) pp ?nb, DELETE pp]"
        have eq: "bundle_loop E max_bundle ?n1 (tq_drop Q)
            (snd (send_one_frame E S (next_prio Q) pp)) (ev @ ?e) = (Q', S', numframe', ev')"
          using bundle_loop_step [OF lt Some False] less.prems by simp
        from less.hyps [OF tq_drop_count [OF Some] eq]
        obtain new where new: "ev' = (ev @ ?e) @ new"
          "numframe' = ?n1 + int (length (filter sent_frame new))"
          "?n1 \<le> max_bundle \<longrightarrow> numframe' \<le> max_bundle"
          "\<forall>q \<in> set (frames_of new). frame_flavor q \<noteq> FLAVOR_APRS_DIGI"
          "\<forall>v. PTT v \<notin> set new"
          by blast
        have "ev' = ev @ (?e @ new)" using new(1) by simp
        moreover have "numframe' = numframe + int (length (filter sent_frame (?e @ new)))"
          using new(2) by simp
        moreover have "numframe \<le> max_bundle \<longrightarrow> numframe' \<le> max_bundle"
          using new(3) lt by simp
        moreover have "\<forall>q \<in> set (frames_of (?e @ new)). frame_flavor q \<noteq> FLAVOR_APRS_DIGI"
          using new(4) False by simp
        moreover have "\<forall>v. PTT v \<notin> set (?e @ new)"
          using new(5) by simp
        ultimately show ?thesis by blast
      qed
    qed
  qed
qed

lemma layer2_preamble_postamble_snd: "\<exists>n S'. layer2_preamble_postamble S k = (n, S')"
  by (simp add: layer2_preamble_postamble_def Let_def)

lemma xmit_digi_single:
  assumes "\<not> ax25_is_null_frame pp"
  shows "\<exists>S' nb pre post. nb > 0 \<and> xmit_ax25_frames E txdelay txtail bps Q S prio pp 1 =
     (Q, S', 1, [PTT 1, FLAGS pre, FRAME prio pp nb, DELETE pp, FLAGS post, PTT 0])"
proof -
  obtain nf0 S0 where p0: "layer2_preamble_postamble S (c_div (MS_TO_BITS (txdelay * 10) bps) 8) = (nf0, S0)"
    by (cases "layer2_preamble_postamble S (c_div (MS_TO_BITS (txdelay * 10) bps) 8)")
  obtain nb S1 where s1: "send_one_frame E S0 prio pp = (nb, S1)"
    by (cases "send_one_frame E S0 prio pp")
  have nb: "nb > 0" using send_one_frame_pos [OF assms, of E S0 prio] s1 by simp
  obtain nf3 S3 where p3: "layer2_preamble_postamble S1 (c_div (MS_TO_BITS (txtail * 10) bps) 8) = (nf3, S3)"
    by (cases "layer2_preamble_postamble S1 (c_div (MS_TO_BITS (txtail * 10) bps) 8)")
  show ?thesis
    using nb by (simp add: xmit_ax25_frames_def p0 s1 p3 bundle_loop_full)
qed


lemma wait_step_random:
  assumes "\<not> hi_peek E (w_peek W)" "dcd_any E (w_dcd W) = 0"
  shows "wait_step E slottime persist dwait RANDOM_WAIT W =
     Inl (if persist_test (rand_val E (w_rand W)) persist then ACQUIRE_DEVICE else RANDOM_WAIT,
          W\<lparr>w_peek := Suc (w_peek W), w_sleeps := w_sleeps W @ [slottime * 10],
            w_dcd := Suc (w_dcd W), w_rand := Suc (w_rand W)\<rparr>)"
  using assms by (simp add: wait_step_def Let_def)

lemma and_255_mod: "(r::int) AND 255 = r mod 256"
proof -
  have m: "(255::int) = mask 8" by (simp add: mask_eq_exp_minus_1)
  show ?thesis unfolding m by (simp add: take_bit_eq_mask [symmetric] take_bit_eq_mod)
qed

lemma and_255_range: "0 \<le> (r::int) AND 255" "(r::int) AND 255 \<le> 255"
  by (simp_all add: and_255_mod)

lemma and_255_id: "0 \<le> (b::int) \<Longrightarrow> b \<le> 255 \<Longrightarrow> b AND 255 = b"
  by (simp add: and_255_mod)

lemma persist_test_255: "persist_test r 255"
  by (simp add: persist_test_def and_255_range)

lemma persist_test_0: "persist_test r 0 \<longleftrightarrow> r AND 0xff = 0"
  unfolding persist_test_def using and_255_range(1) [of r] by linarith

lemma wait_run_Inr:
  "wait_step E slottime persist dwait pc W = Inr r \<Longrightarrow>
   wait_run E slottime persist dwait pc W = Some r"
  by (subst wait_run.simps) simp

lemma wait_run_Inl:
  "wait_step E slottime persist dwait pc W = Inl (pc', W') \<Longrightarrow>
   wait_run E slottime persist dwait pc W = wait_run E slottime persist dwait pc' W'"
  by (subst wait_run.simps) simp

lemma persist_count:
  assumes "0 \<le> p" "p \<le> 255"
  shows "card {b. 0 \<le> b \<and> b \<le> 255 \<and> persist_test b p} = nat (p + 1)"
proof -
  have "{b. 0 \<le> b \<and> b \<le> 255 \<and> persist_test b p} = {0..p}"
    using assms by (auto simp: persist_test_def and_255_id)
  then show ?thesis by simp
qed

lemma byte_count: "card {b::int. 0 \<le> b \<and> b \<le> 255} = 256"
proof -
  have "{b::int. 0 \<le> b \<and> b \<le> 255} = {0..255}" by auto
  then show ?thesis by simp
qed

lemma wait_persist_255:
  assumes "\<forall>k. dcd_any E k = 0" "\<forall>k. \<not> hi_peek E k" "try_lock E 0" "dwait \<le> 0"
  shows "wait_for_clear_channel E slottime 255 0 dwait =
     Some (1, wait_state0\<lparr>w_dcd := 3, w_peek := 1, w_rand := 1, w_lock := 1,
                          w_sleeps := [slottime * 10]\<rparr>)"
proof -
  have 1: "wait_step E slottime 255 dwait START_OVER_AGAIN wait_state0 =
      Inl (RANDOM_WAIT, wait_state0\<lparr>w_dcd := 2\<rparr>)"
    using assms by (simp add: wait_step_def Let_def wait_state0_def)
  have 2: "wait_step E slottime 255 dwait RANDOM_WAIT (wait_state0\<lparr>w_dcd := 2\<rparr>) =
      Inl (ACQUIRE_DEVICE, wait_state0\<lparr>w_dcd := 3, w_peek := 1, w_rand := 1, w_sleeps := [slottime * 10]\<rparr>)"
    using assms by (simp add: wait_step_random persist_test_255 wait_state0_def)
  have 3: "wait_step E slottime 255 dwait ACQUIRE_DEVICE
       (wait_state0\<lparr>w_dcd := 3, w_peek := 1, w_rand := 1, w_sleeps := [slottime * 10]\<rparr>) =
      Inr (1, wait_state0\<lparr>w_dcd := 3, w_peek := 1, w_rand := 1, w_lock := 1, w_sleeps := [slottime * 10]\<rparr>)"
    using assms by (simp add: wait_step_def wait_state0_def)
  have "wait_run E slottime 255 dwait START_OVER_AGAIN wait_state0 =
      wait_run E slottime 255 dwait RANDOM_WAIT (wait_state0\<lparr>w_dcd := 2\<rparr>)"
    by (rule wait_run_Inl [OF 1])
  also have "\<dots> = wait_run E slottime 255 dwait ACQUIRE_DEVICE
      (wait_state0\<lparr>w_dcd := 3, w_peek := 1, w_rand := 1, w_sleeps := [slottime * 10]\<rparr>)"
    by (rule wait_run_Inl [OF 2])
  also have "\<dots> = Some (1, wait_state0\<lparr>w_dcd := 3, w_peek := 1, w_rand := 1, w_lock := 1,
      w_sleeps := [slottime * 10]\<rparr>)"
    by (rule wait_run_Inr [OF 3])
  finally show ?thesis
    unfolding wait_for_clear_channel_def by simp
qed





lemma round_remove:
  "next_frame Q = Some pp \<Longrightarrow>
   (case tq_remove Q TQ_PRIO_0_HI of
      (Some pp, Q') \<Rightarrow> (TQ_PRIO_0_HI, (Some pp, Q'))
    | (None, Q') \<Rightarrow> (TQ_PRIO_1_LO, tq_remove Q' TQ_PRIO_1_LO)) =
   (next_prio Q, (Some pp, tq_drop Q))"
  by (auto simp: next_frame_def tq_peek_def tq_remove_def next_prio_def tq_drop_def
      split: list.splits)


lemma round_send:
  assumes "wait_for_clear_channel WE (ct_slottime C) (ct_persist C) (ct_fulldup C) (ct_dwait C) = Some (ok, W)"
    "ok \<noteq> 0" "next_frame Q = Some pp"
  shows "xmit_thread_round E WE C Q S =
     (case xmit_ax25_frames E (ct_txdelay C) (ct_txtail C) (ct_bits_per_sec C) (tq_drop Q) S
             (next_prio Q) pp (if frame_flavor pp = FLAVOR_APRS_DIGI then 1 else 256) of
        (Q2, S2, nf, ev) \<Rightarrow> Some (Q2, S2, W, ev))"
  using assms(2)
  by (simp add: xmit_thread_round_def assms(1) round_remove [OF assms(3)] split: flavor_t.splits)

lemma xmit_frames_general:
  assumes "xmit_ax25_frames E txdelay txtail bps Q S prio pp max_bundle = (Q2, S3, nf, ev)"
  shows "\<exists>new. frames_of ev = pp # new \<and>
     (\<forall>q \<in> set new. frame_flavor q \<noteq> FLAVOR_APRS_DIGI) \<and>
     nf = int (length (filter sent_frame ev)) \<and>
     (1 \<le> max_bundle \<longrightarrow> nf \<le> max_bundle) \<and>
     length (filter (\<lambda>e. e = PTT 1) ev) = 1"
proof -
  obtain nf0 S0 where p0: "layer2_preamble_postamble S (c_div (MS_TO_BITS (txdelay * 10) bps) 8) = (nf0, S0)"
    by (cases "layer2_preamble_postamble S (c_div (MS_TO_BITS (txdelay * 10) bps) 8)")
  obtain nb S1 where s1: "send_one_frame E S0 prio pp = (nb, S1)"
    by (cases "send_one_frame E S0 prio pp")
  let ?ev0 = "[PTT 1, FLAGS (c_div (MS_TO_BITS (txdelay * 10) bps) 8), FRAME prio pp nb, DELETE pp]"
  let ?n0 = "if nb > 0 then 1 else (0::int)"
  obtain Qb Sb nfb evb where b: "bundle_loop E max_bundle ?n0 Q S1 ?ev0 = (Qb, Sb, nfb, evb)"
    by (cases "bundle_loop E max_bundle ?n0 Q S1 ?ev0")
  obtain nf3 Sp where p3: "layer2_preamble_postamble Sb (c_div (MS_TO_BITS (txtail * 10) bps) 8) = (nf3, Sp)"
    by (cases "layer2_preamble_postamble Sb (c_div (MS_TO_BITS (txtail * 10) bps) 8)")
  from bundle_loop_count [OF b] obtain new where new: "evb = ?ev0 @ new"
    "nfb = ?n0 + int (length (filter sent_frame new))"
    "?n0 \<le> max_bundle \<longrightarrow> nfb \<le> max_bundle"
    "\<forall>q \<in> set (frames_of new). frame_flavor q \<noteq> FLAVOR_APRS_DIGI"
    "\<forall>v. PTT v \<notin> set new"
    by blast
  have r: "nf = nfb" "ev = evb @ [FLAGS (c_div (MS_TO_BITS (txtail * 10) bps) 8), PTT 0]"
    using assms by (simp_all add: xmit_ax25_frames_def p0 s1 b p3)
  have ptt: "filter (\<lambda>e. e = PTT 1) new = []"
    using new(5) by (auto simp: filter_empty_conv)
  have sf: "filter sent_frame ev = filter sent_frame ?ev0 @ filter sent_frame new"
    unfolding r new by simp
  have 1: "frames_of ev = pp # frames_of new"
    unfolding r new by (simp add: frames_of_append)
  have 3: "nf = int (length (filter sent_frame ev))"
    unfolding sf r(1) new(2) by simp
  have 4: "1 \<le> max_bundle \<longrightarrow> nf \<le> max_bundle"
    using new(3) r(1) by simp
  have 5: "length (filter (\<lambda>e. e = PTT 1) ev) = 1"
    unfolding r new by (simp add: ptt)
  show ?thesis
    using 1 new(4) 3 4 5 by blast
qed

text \<open>
  Claim C5. A round of the random wait loop with no high priority packet waiting and no
  carrier after the sleep: it sleeps \<open>slottime * 10\<close> ms, takes \<open>r = rand() & 0xff\<close>, which is
  in \<open>[0, 255]\<close>, and goes on to take the audio device if and only if \<open>r <= persist\<close>;
  otherwise it starts another round. With \<open>persist = 255\<close> every \<open>r\<close> passes, and the whole
  function, on a clear channel with no \<open>dwait\<close>, returns 1 after the one sleep of
  \<open>slottime * 10\<close> ms; with \<open>persist = 0\<close> only \<open>r = 0\<close> passes, one of the 256 values of a
  byte.
\<close>

theorem csma_persist_slot:
  "(\<not> hi_peek E (w_peek W) \<and> dcd_any E (w_dcd W) = 0 \<longrightarrow>
      wait_step E slottime persist dwait RANDOM_WAIT W =
        Inl (if persist_test (rand_val E (w_rand W)) persist then ACQUIRE_DEVICE
             else RANDOM_WAIT,
             W\<lparr>w_peek := Suc (w_peek W), w_sleeps := w_sleeps W @ [slottime * 10],
               w_dcd := Suc (w_dcd W), w_rand := Suc (w_rand W)\<rparr>)) \<and>
   (persist_test r persist \<longleftrightarrow> (r AND 0xff) \<le> persist) \<and>
   0 \<le> r AND 0xff \<and> r AND 0xff \<le> 255 \<and>
   persist_test r 255 \<and>
   (persist_test r 0 \<longleftrightarrow> r AND 0xff = 0) \<and>
   card {b. 0 \<le> b \<and> b \<le> 255 \<and> persist_test b 0} = 1 \<and>
   card {b::int. 0 \<le> b \<and> b \<le> 255} = 256 \<and>
   ((\<forall>k. dcd_any E k = 0) \<and> (\<forall>k. \<not> hi_peek E k) \<and> try_lock E 0 \<and> dwait \<le> 0 \<longrightarrow>
      wait_for_clear_channel E slottime 255 0 dwait =
        Some (1, wait_state0\<lparr>w_dcd := 3, w_peek := 1, w_rand := 1, w_lock := 1,
                             w_sleeps := [slottime * 10]\<rparr>))"
proof -
  have c0: "card {b. 0 \<le> b \<and> b \<le> 255 \<and> persist_test b 0} = 1"
    using persist_count [of 0] by simp
  show ?thesis
    using wait_step_random [of E W slottime persist dwait] and_255_range [of r]
      persist_test_255 [of r] persist_test_0 [of r] c0 byte_count
      wait_persist_255 [of E dwait slottime]
    by (simp add: persist_test_def)
qed

theorem csma_persist_slot_witness:
  "\<not> hi_peek wait_env_clear (w_peek wait_state0) \<and>
   dcd_any wait_env_clear (w_dcd wait_state0) = 0 \<and>
   wait_step wait_env_clear 10 63 0 RANDOM_WAIT wait_state0 =
     Inl (RANDOM_WAIT,
          wait_state0\<lparr>w_peek := 1, w_sleeps := [100], w_dcd := 1, w_rand := 1\<rparr>) \<and>
   wait_for_clear_channel wait_env_clear 10 255 0 0 =
     Some (1, wait_state0\<lparr>w_dcd := 3, w_peek := 1, w_rand := 1, w_lock := 1,
                          w_sleeps := [100]\<rparr>)"
proof -
  have a: "\<not> hi_peek wait_env_clear (w_peek wait_state0) \<and>
      dcd_any wait_env_clear (w_dcd wait_state0) = 0"
    by (simp add: wait_env_clear_def)
  have b: "(\<forall>k. dcd_any wait_env_clear k = 0) \<and> (\<forall>k. \<not> hi_peek wait_env_clear k) \<and>
      try_lock wait_env_clear 0 \<and> (0::int) \<le> 0"
    by (simp add: wait_env_clear_def)
  have c: "\<not> persist_test (rand_val wait_env_clear (w_rand wait_state0)) 63"
    by (simp add: persist_test_def wait_env_clear_def)
  have s: "wait_step wait_env_clear 10 63 0 RANDOM_WAIT wait_state0 =
      Inl (RANDOM_WAIT,
        wait_state0\<lparr>w_peek := Suc (w_peek wait_state0),
          w_sleeps := w_sleeps wait_state0 @ [10 * 10],
          w_dcd := Suc (w_dcd wait_state0), w_rand := Suc (w_rand wait_state0)\<rparr>)"
    using a c csma_persist_slot [of wait_env_clear wait_state0 10 63 0 0] by simp
  have f: "wait_for_clear_channel wait_env_clear 10 255 0 0 =
      Some (1, wait_state0\<lparr>w_dcd := 3, w_peek := 1, w_rand := 1, w_lock := 1,
                           w_sleeps := [10 * 10]\<rparr>)"
    using b csma_persist_slot [of wait_env_clear wait_state0 10 255 0 0] by blast
  show ?thesis
    using a s f by (simp add: wait_state0_def)
qed

section \<open>The pattern detector on stuffed data\<close>

lemma nrzi_encode_append:
  "nrzi_encode s (a @ b) = nrzi_encode s a @ nrzi_encode (line_after s a) b"
  by (induction a arbitrary: s) (auto simp: Let_def)

lemma line_after_append: "line_after s (a @ b) = line_after (line_after s a) b"
  by (induction a arbitrary: s) auto

lemma nrzi_encode_ones: "nrzi_encode s (replicate n True) = replicate n s"
  by (induction n) (auto simp: Let_def)

lemma line_after_ones: "line_after s (replicate n True) = s"
  by (induction n) auto

lemma nrzi_encode_flip: "nrzi_encode s (d # ds) = nrzi_encode (\<not> s) ((\<not> d) # ds)"
  by (auto simp: Let_def)

lemma quiet_append: "quiet p (a @ b) \<longleftrightarrow> quiet p a \<and> quiet (foldl shift_in8 p a) b"
  by (induction a arbitrary: p) auto

lemma wff_iff:
  "(w :: 8 word) = 0xff \<longleftrightarrow>
     bit w 0 \<and> bit w 1 \<and> bit w 2 \<and> bit w 3 \<and> bit w 4 \<and> bit w 5 \<and> bit w 6 \<and> bit w 7"
  by (simp add: word8_eq_iff all8)

lemma w7f_iff:
  "(w :: 8 word) = 0x7f \<longleftrightarrow>
     bit w 0 \<and> bit w 1 \<and> bit w 2 \<and> bit w 3 \<and> bit w 4 \<and> bit w 5 \<and> bit w 6 \<and> \<not> bit w 7"
  by (simp add: word8_eq_iff all8)

lemma trail_0: "trail p 0 \<longleftrightarrow> \<not> bit p 7"
  by (simp add: trail_def)

lemma all_less_Suc: "(\<forall>i<Suc k. P i) \<longleftrightarrow> P 0 \<and> (\<forall>i<k. P (Suc i))"
  by (metis less_Suc_eq_0_disj)

lemma trail_shift_zero: "trail (shift_in8 p False) 0"
  by (simp add: trail_def bit_shift_in8)

lemma trail_shift_one:
  assumes "trail p k" "k \<le> 6"
  shows "trail (shift_in8 p True) (Suc k)"
  unfolding trail_def
proof (intro conjI allI impI)
  show "Suc k \<le> 7" using assms by simp
next
  fix i assume i: "i < Suc k"
  show "bit (shift_in8 p True) (7 - i)"
  proof (cases i)
    case 0
    then show ?thesis by (simp add: bit_shift_in8)
  next
    case (Suc j)
    then have j: "j < k" using i by simp
    have "bit p (7 - j)" using assms(1) j by (simp add: trail_def)
    moreover have "Suc (7 - i) = 7 - j" using Suc j assms(2) by simp
    moreover have "7 - i \<noteq> 7" using Suc by simp
    moreover have "7 - i < 7" using Suc by simp
    ultimately show ?thesis by (simp add: bit_shift_in8)
  qed
next
  have a: "\<not> bit p (7 - k)" using assms(1) by (simp add: trail_def)
  have b: "Suc (7 - Suc k) = 7 - k" using assms(2) by simp
  show "\<not> bit (shift_in8 p True) (7 - Suc k)"
    using a b by (simp add: bit_shift_in8)
qed

lemma trail_bits:
  "trail p 0 \<longleftrightarrow> \<not> bit p 7"
  "trail p 1 \<longleftrightarrow> bit p 7 \<and> \<not> bit p 6"
  "trail p 2 \<longleftrightarrow> bit p 7 \<and> bit p 6 \<and> \<not> bit p 5"
  "trail p 3 \<longleftrightarrow> bit p 7 \<and> bit p 6 \<and> bit p 5 \<and> \<not> bit p 4"
  "trail p 4 \<longleftrightarrow> bit p 7 \<and> bit p 6 \<and> bit p 5 \<and> bit p 4 \<and> \<not> bit p 3"
  "trail p 5 \<longleftrightarrow> bit p 7 \<and> bit p 6 \<and> bit p 5 \<and> bit p 4 \<and> bit p 3 \<and> \<not> bit p 2"
  "trail p 6 \<longleftrightarrow> bit p 7 \<and> bit p 6 \<and> bit p 5 \<and> bit p 4 \<and> bit p 3 \<and> bit p 2 \<and> \<not> bit p 1"
  "trail p 7 \<longleftrightarrow> bit p 7 \<and> bit p 6 \<and> bit p 5 \<and> bit p 4 \<and> bit p 3 \<and> bit p 2 \<and> bit p 1 \<and> \<not> bit p 0"
  by (auto simp: trail_def all_less_Suc numeral_eq_Suc)

lemma shift_bits:
  "bit (shift_in8 w d) 0 = bit w 1"
  "bit (shift_in8 w d) 1 = bit w 2"
  "bit (shift_in8 w d) (Suc 0) = bit w 2"
  "bit (shift_in8 w d) 2 = bit w 3"
  "bit (shift_in8 w d) 3 = bit w 4"
  "bit (shift_in8 w d) 4 = bit w 5"
  "bit (shift_in8 w d) 5 = bit w 6"
  "bit (shift_in8 w d) 6 = bit w 7"
  "bit (shift_in8 w d) 7 = d"
  by (simp_all add: bit_shift_in8 eval_nat_numeral)

lemma trail_Suc0: "trail p (Suc 0) \<longleftrightarrow> bit p 7 \<and> \<not> bit p 6"
  using trail_bits(2) [of p] by simp

lemma le5_cases: "k \<le> 5 \<Longrightarrow> k \<in> {0, 1, 2, 3, 4, 5 :: nat}"
  by auto

lemma le4_cases: "k \<le> 4 \<Longrightarrow> k \<in> {0, 1, 2, 3, 4 :: nat}"
  by auto

lemma quiet_zero:
  assumes "trail p k" "k \<le> 5"
  shows "shift_in8 p False \<noteq> 0x7e \<and> shift_in8 p False \<noteq> 0xfe"
  using le5_cases [OF assms(2)] assms(1)
  by (auto simp: trail_bits trail_Suc0 w7e_iff wfe_iff shift_bits)

lemma quiet_one:
  assumes "trail p k" "k \<le> 5"
  shows "shift_in8 p True \<noteq> 0x7e \<and> shift_in8 p True \<noteq> 0xfe"
  using le5_cases [OF assms(2)] assms(1)
  by (auto simp: trail_bits trail_Suc0 w7e_iff wfe_iff shift_bits)

lemma abort_one: "trail p 6 \<Longrightarrow> shift_in8 p True = 0xfe"
  by (simp add: trail_bits wfe_iff shift_bits)

lemma flag_zero: "trail p 6 \<Longrightarrow> shift_in8 p False = 0x7e"
  by (simp add: trail_bits w7e_iff shift_bits)

lemma destuff_zero5: "trail p 5 \<Longrightarrow> shift_in8 p False AND 0xfc = 0x7c"
  by (simp add: trail_bits w7c_iff shift_bits)

lemma nodestuff_zero:
  assumes "trail p k" "k \<le> 4"
  shows "shift_in8 p False AND 0xfc \<noteq> 0x7c"
  using le4_cases [OF assms(2)] assms(1)
  by (auto simp: trail_bits trail_Suc0 w7c_iff shift_bits)

lemma nodestuff_one: "shift_in8 p True AND 0xfc \<noteq> 0x7c"
  by (simp add: w7c_iff shift_bits)

lemma shift_ff: "shift_in8 0xff True = 0xff" "shift_in8 0xff False = 0x7f"
  by (simp_all add: shift_in8_def)

lemma trail_7f: "trail 0x7f 0"
  by (simp add: trail_bits)

lemma sync_zero:
  assumes "sync p k" "k \<le> 5"
  shows "shift_in8 p False \<noteq> 0x7e \<and> shift_in8 p False \<noteq> 0xfe \<and> sync (shift_in8 p False) 0"
  using assms quiet_zero [of p k]
  by (auto simp: sync_def shift_ff trail_shift_zero)

lemma sync_one:
  assumes "sync p k" "k \<le> 5"
  shows "shift_in8 p True \<noteq> 0x7e \<and> shift_in8 p True \<noteq> 0xfe \<and> sync (shift_in8 p True) (Suc k)"
  using assms quiet_one [of p k] trail_shift_one [of p k]
  by (auto simp: sync_def shift_ff)

lemma sync_zero_any:
  "sync p k \<Longrightarrow> sync (shift_in8 p False) 0"
  by (simp add: sync_def trail_shift_zero)

lemma quiet_bit_stuff:
  "sync p k \<Longrightarrow> k < 5 \<Longrightarrow>
   quiet p (bit_stuff k ds) \<and> sync (foldl shift_in8 p (bit_stuff k ds)) (stuff_count k ds)"
proof (induction ds arbitrary: p k)
  case Nil
  then show ?case by simp
next
  case (Cons d ds)
  show ?case
  proof (cases d)
    case False
    have z: "shift_in8 p False \<noteq> 0x7e \<and> shift_in8 p False \<noteq> 0xfe \<and> sync (shift_in8 p False) 0"
      using sync_zero [OF Cons.prems(1)] Cons.prems(2) by simp
    from Cons.IH [of "shift_in8 p False" 0] z show ?thesis
      using False by simp
  next
    case True
    have o: "shift_in8 p True \<noteq> 0x7e \<and> shift_in8 p True \<noteq> 0xfe \<and> sync (shift_in8 p True) (Suc k)"
      using sync_one [OF Cons.prems(1)] Cons.prems(2) by simp
    show ?thesis
    proof (cases "Suc k = 5")
      case False
      then have "Suc k < 5" using Cons.prems(2) by simp
      from Cons.IH [OF _ this, of "shift_in8 p True"] o show ?thesis
        using True False by simp
    next
      case k5: True
      have z: "shift_in8 (shift_in8 p True) False \<noteq> 0x7e \<and>
          shift_in8 (shift_in8 p True) False \<noteq> 0xfe \<and>
          sync (shift_in8 (shift_in8 p True) False) 0"
        using sync_zero [of "shift_in8 p True" "Suc k"] o k5 by simp
      from Cons.IH [of "shift_in8 (shift_in8 p True) False" 0] z o show ?thesis
        using True k5 by simp
    qed
  qed
qed

lemma quiet_flag:
  assumes "sync p k" "k \<le> 5"
  shows "quiet p [False, True, True, True, True, True, True] \<and>
         foldl shift_in8 p flag_bits = 0x7e"
proof -
  let ?p0 = "shift_in8 p False"
  have 0: "?p0 \<noteq> 0x7e \<and> ?p0 \<noteq> 0xfe" using sync_zero [OF assms] by simp
  have t0: "trail ?p0 0" by (rule trail_shift_zero)
  let ?p1 = "shift_in8 ?p0 True"
  have 1: "?p1 \<noteq> 0x7e \<and> ?p1 \<noteq> 0xfe" using quiet_one [OF t0] by simp
  have t1: "trail ?p1 1" using trail_shift_one [OF t0] by simp
  let ?p2 = "shift_in8 ?p1 True"
  have 2: "?p2 \<noteq> 0x7e \<and> ?p2 \<noteq> 0xfe" using quiet_one [OF t1] by simp
  have t2: "trail ?p2 2" using trail_shift_one [OF t1] by (simp add: numeral_2_eq_2)
  let ?p3 = "shift_in8 ?p2 True"
  have 3: "?p3 \<noteq> 0x7e \<and> ?p3 \<noteq> 0xfe" using quiet_one [OF t2] by simp
  have t3: "trail ?p3 3" using trail_shift_one [OF t2] by (simp add: numeral_3_eq_3 numeral_2_eq_2)
  let ?p4 = "shift_in8 ?p3 True"
  have 4: "?p4 \<noteq> 0x7e \<and> ?p4 \<noteq> 0xfe" using quiet_one [OF t3] by simp
  have t4: "trail ?p4 4" using trail_shift_one [OF t3] by (simp add: eval_nat_numeral)
  let ?p5 = "shift_in8 ?p4 True"
  have 5: "?p5 \<noteq> 0x7e \<and> ?p5 \<noteq> 0xfe" using quiet_one [OF t4] by simp
  have t5: "trail ?p5 5" using trail_shift_one [OF t4] by (simp add: eval_nat_numeral)
  let ?p6 = "shift_in8 ?p5 True"
  have 6: "?p6 \<noteq> 0x7e \<and> ?p6 \<noteq> 0xfe" using quiet_one [OF t5] by simp
  have t6: "trail ?p6 6" using trail_shift_one [OF t5] by (simp add: eval_nat_numeral)
  have 7: "shift_in8 ?p6 False = 0x7e" by (rule flag_zero [OF t6])
  show ?thesis
    using 0 1 2 3 4 5 6 7 by (simp add: flag_bits_def)
qed

section \<open>The round trip: serializer, decoder, dispatcher\<close>

lemma hdlc_rec_bit_quiet:
  assumes "shift_in8 (pat_det H) (raw = prev_raw H) \<noteq> 0x7e"
    and "shift_in8 (pat_det H) (raw = prev_raw H) \<noteq> 0xfe"
  shows "snd (hdlc_rec_bit L H raw False) = None"
    and "rrbb (fst (hdlc_rec_bit L H raw False)) = rrbb H @ [raw]"
    and "prev_raw (fst (hdlc_rec_bit L H raw False)) = raw"
    and "pat_det (fst (hdlc_rec_bit L H raw False)) = shift_in8 (pat_det H) (raw = prev_raw H)"
    and "olen H = - 1 \<Longrightarrow> olen (fst (hdlc_rec_bit L H raw False)) = - 1"
    and "olen H = - 1 \<Longrightarrow> frame_len (fst (hdlc_rec_bit L H raw False)) = frame_len H"
  using assms by (auto simp: hdlc_rec_bit_def Let_def rrbb_append_bit_def)

lemma hdlc_rec_bit_flag:
  assumes "shift_in8 (pat_det H) (raw = prev_raw H) = 0x7e"
  shows "snd (hdlc_rec_bit L H raw False) =
           (if int (length (rrbb H) + 1 - 8) \<ge> MIN_FRAME_LEN L * 8
            then Some (take (length (rrbb H) + 1 - 8) (rrbb H @ [raw])) else None)"
    and "rrbb (fst (hdlc_rec_bit L H raw False)) = [raw]"
    and "prev_raw (fst (hdlc_rec_bit L H raw False)) = raw"
    and "pat_det (fst (hdlc_rec_bit L H raw False)) = 0x7e"
    and "olen (fst (hdlc_rec_bit L H raw False)) = 0"
    and "frame_len (fst (hdlc_rec_bit L H raw False)) = 0"
  using assms
  by (auto simp: hdlc_rec_bit_def Let_def rrbb_append_bit_def rrbb_chop8_def rrbb_get_len_def
      rrbb_new_def rrbb_clear_def)

lemma hdlc_rec_bit_abort:
  assumes "shift_in8 (pat_det H) (raw = prev_raw H) = 0xfe"
  shows "snd (hdlc_rec_bit L H raw False) = None"
    and "rrbb (fst (hdlc_rec_bit L H raw False)) = []"
    and "prev_raw (fst (hdlc_rec_bit L H raw False)) = raw"
    and "pat_det (fst (hdlc_rec_bit L H raw False)) = 0xfe"
    and "olen (fst (hdlc_rec_bit L H raw False)) = - 1"
    and "frame_len (fst (hdlc_rec_bit L H raw False)) = 0"
  using assms
  by (auto simp: hdlc_rec_bit_def Let_def rrbb_append_bit_def rrbb_clear_def)

lemma hdlc_rec_bits_Cons:
  "hdlc_rec_bits L H ((raw, c) # rest) =
     (fst (hdlc_rec_bits L (fst (hdlc_rec_bit L H raw c)) rest),
      (case snd (hdlc_rec_bit L H raw c) of None \<Rightarrow> [] | Some b \<Rightarrow> [b]) @
      snd (hdlc_rec_bits L (fst (hdlc_rec_bit L H raw c)) rest))"
  by (auto split: prod.splits option.splits)

lemma hdlc_rec_bits_append:
  "hdlc_rec_bits L H (a @ b) =
     (fst (hdlc_rec_bits L (fst (hdlc_rec_bits L H a)) b),
      snd (hdlc_rec_bits L H a) @ snd (hdlc_rec_bits L (fst (hdlc_rec_bits L H a)) b))"
proof (induction a arbitrary: H)
  case Nil
  then show ?case by simp
next
  case (Cons x a)
  obtain raw c where x: "x = (raw, c)" by (cases x)
  show ?case
    unfolding x append_Cons hdlc_rec_bits_Cons Cons.IH by simp
qed

lemma clean_append: "clean (a @ b) = clean a @ clean b"
  by (simp add: clean_def)

lemma clean_Cons: "clean (r # rs) = (r, False) # clean rs"
  by (simp add: clean_def)

lemma rec_quiet:
  "prev_raw H = s \<Longrightarrow> quiet (pat_det H) ds \<Longrightarrow>
   snd (hdlc_rec_bits L H (clean (nrzi_encode s ds))) = [] \<and>
   rrbb (fst (hdlc_rec_bits L H (clean (nrzi_encode s ds)))) = rrbb H @ nrzi_encode s ds \<and>
   prev_raw (fst (hdlc_rec_bits L H (clean (nrzi_encode s ds)))) = line_after s ds \<and>
   pat_det (fst (hdlc_rec_bits L H (clean (nrzi_encode s ds)))) = foldl shift_in8 (pat_det H) ds \<and>
   (olen H = - 1 \<longrightarrow>
      olen (fst (hdlc_rec_bits L H (clean (nrzi_encode s ds)))) = - 1 \<and>
      frame_len (fst (hdlc_rec_bits L H (clean (nrzi_encode s ds)))) = frame_len H)"
proof (induction ds arbitrary: H s)
  case Nil
  then show ?case by (simp add: clean_def)
next
  case (Cons d ds)
  let ?raw = "if d then s else \<not> s"
  let ?H1 = "fst (hdlc_rec_bit L H ?raw False)"
  have db: "(?raw = prev_raw H) = d" using Cons.prems(1) by auto
  have q: "shift_in8 (pat_det H) (?raw = prev_raw H) \<noteq> 0x7e"
    "shift_in8 (pat_det H) (?raw = prev_raw H) \<noteq> 0xfe"
    using Cons.prems(2) unfolding db by simp_all
  note st = hdlc_rec_bit_quiet [OF q, of L]
  have p1: "prev_raw ?H1 = ?raw" by (rule st(3))
  have q1: "quiet (pat_det ?H1) ds"
    using Cons.prems(2) st(4) unfolding db by simp
  note ih = Cons.IH [OF p1 q1]
  have enc: "nrzi_encode s (d # ds) = ?raw # nrzi_encode ?raw ds"
    by (simp add: Let_def)
  show ?case
    unfolding enc clean_Cons hdlc_rec_bits_Cons
    using ih st db by simp
qed

lemma clean_Nil: "clean [] = []"
  by (simp add: clean_def)

lemma hdlc_rec_bits_snoc:
  "hdlc_rec_bits L H (clean (rs @ [raw])) =
     (fst (hdlc_rec_bit L (fst (hdlc_rec_bits L H (clean rs))) raw False),
      snd (hdlc_rec_bits L H (clean rs)) @
      (case snd (hdlc_rec_bit L (fst (hdlc_rec_bits L H (clean rs))) raw False) of
         None \<Rightarrow> [] | Some b \<Rightarrow> [b]))"
  unfolding clean_append hdlc_rec_bits_append clean_Cons clean_Nil hdlc_rec_bits_Cons
  by simp

lemma flag_bits_split: "flag_bits = [False, True, True, True, True, True, True] @ [False]"
  by (simp add: flag_bits_def)

text \<open>
  Stuffed data bits and the closing flag, received in a state in step with the sender: the
  flag hands over the raw bits collected so far, if they are enough.
\<close>

lemma rec_frame_body:
  assumes s: "prev_raw H = s"
    and y: "sync (pat_det H) j"
    and j: "j < 5"
  shows "snd (hdlc_rec_bits L H (clean (nrzi_encode s (bit_stuff j xs @ flag_bits)))) =
           (if MIN_FRAME_LEN L * 8 \<le> int (length (rrbb H) + length (bit_stuff j xs))
            then [rrbb H @ nrzi_encode s (bit_stuff j xs)] else [])"
    and "rrbb (fst (hdlc_rec_bits L H (clean (nrzi_encode s (bit_stuff j xs @ flag_bits))))) =
           [line_after s (bit_stuff j xs @ flag_bits)]"
    and "prev_raw (fst (hdlc_rec_bits L H (clean (nrzi_encode s (bit_stuff j xs @ flag_bits))))) =
           line_after s (bit_stuff j xs @ flag_bits)"
    and "pat_det (fst (hdlc_rec_bits L H (clean (nrzi_encode s (bit_stuff j xs @ flag_bits))))) = 0x7e"
    and "olen (fst (hdlc_rec_bits L H (clean (nrzi_encode s (bit_stuff j xs @ flag_bits))))) = 0"
    and "frame_len (fst (hdlc_rec_bits L H (clean (nrzi_encode s (bit_stuff j xs @ flag_bits))))) = 0"
proof -
  let ?st = "bit_stuff j xs"
  let ?f7 = "[False, True, True, True, True, True, True]"
  let ?ds = "?st @ ?f7"
  let ?H1 = "fst (hdlc_rec_bits L H (clean (nrzi_encode s ?ds)))"
  let ?s1 = "line_after s ?ds"
  let ?raw = "\<not> ?s1"
  let ?p1 = "foldl shift_in8 (pat_det H) ?st"
  have q1: "quiet (pat_det H) ?st \<and> sync ?p1 (stuff_count j xs)"
    by (rule quiet_bit_stuff [OF y j])
  have k: "stuff_count j xs \<le> 5"
    using stuff_count_lt [OF j, of xs] by simp
  have q2: "quiet ?p1 ?f7 \<and> foldl shift_in8 ?p1 flag_bits = 0x7e"
    using quiet_flag [OF _ k] q1 by blast
  have q: "quiet (pat_det H) ?ds"
    using q1 q2 by (simp only: quiet_append)
  note r = rec_quiet [OF s q, of L]
  have fl: "shift_in8 (pat_det ?H1) (?raw = prev_raw ?H1) = 0x7e"
    using r q2 by (simp add: flag_bits_def)
  note f = hdlc_rec_bit_flag [OF fl, of L]
  have enc: "nrzi_encode s (?st @ flag_bits) = nrzi_encode s ?ds @ [?raw]"
    unfolding flag_bits_split append_assoc [symmetric]
    by (subst nrzi_encode_append) (simp add: Let_def)
  have la: "line_after s (?st @ flag_bits) = ?raw"
    unfolding flag_bits_split append_assoc [symmetric]
    by (subst line_after_append) simp
  have run: "hdlc_rec_bits L H (clean (nrzi_encode s (?st @ flag_bits))) =
      (fst (hdlc_rec_bit L ?H1 ?raw False),
       (case snd (hdlc_rec_bit L ?H1 ?raw False) of None \<Rightarrow> [] | Some b \<Rightarrow> [b]))"
    unfolding enc hdlc_rec_bits_snoc using r by simp
  have rr: "rrbb ?H1 = rrbb H @ nrzi_encode s ?st @ nrzi_encode (line_after s ?st) ?f7"
    using r by (simp only: nrzi_encode_append)
  have l7: "length (nrzi_encode (line_after s ?st) ?f7) = 7"
    by (subst length_nrzi_encode) simp
  have lr: "length (rrbb ?H1) + 1 - 8 = length (rrbb H) + length ?st"
    unfolding rr using l7 by (simp add: length_nrzi_encode)
  have tk: "take (length (rrbb ?H1) + 1 - 8) (rrbb ?H1 @ [?raw]) = rrbb H @ nrzi_encode s ?st"
    unfolding lr unfolding rr by (simp add: length_nrzi_encode)
  have ho: "snd (hdlc_rec_bit L ?H1 ?raw False) =
      (if MIN_FRAME_LEN L * 8 \<le> int (length (rrbb H) + length ?st)
       then Some (rrbb H @ nrzi_encode s ?st) else None)"
    unfolding f(1) tk unfolding lr by (rule refl)
  show "snd (hdlc_rec_bits L H (clean (nrzi_encode s (bit_stuff j xs @ flag_bits)))) =
           (if MIN_FRAME_LEN L * 8 \<le> int (length (rrbb H) + length (bit_stuff j xs))
            then [rrbb H @ nrzi_encode s (bit_stuff j xs)] else [])"
    unfolding run ho by simp
  show "rrbb (fst (hdlc_rec_bits L H (clean (nrzi_encode s (bit_stuff j xs @ flag_bits))))) =
           [line_after s (bit_stuff j xs @ flag_bits)]"
    unfolding run la using f(2) by simp
  show "prev_raw (fst (hdlc_rec_bits L H (clean (nrzi_encode s (bit_stuff j xs @ flag_bits))))) =
           line_after s (bit_stuff j xs @ flag_bits)"
    unfolding run la using f(3) by simp
  show "pat_det (fst (hdlc_rec_bits L H (clean (nrzi_encode s (bit_stuff j xs @ flag_bits))))) = 0x7e"
    unfolding run using f(4) by simp
  show "olen (fst (hdlc_rec_bits L H (clean (nrzi_encode s (bit_stuff j xs @ flag_bits))))) = 0"
    unfolding run using f(5) by simp
  show "frame_len (fst (hdlc_rec_bits L H (clean (nrzi_encode s (bit_stuff j xs @ flag_bits))))) = 0"
    unfolding run using f(6) by simp
qed

lemma ones_to_abort:
  "trail (pat_det H) (6 - n) \<Longrightarrow> n \<le> 6 \<Longrightarrow> prev_raw H = s \<Longrightarrow>
   snd (hdlc_rec_bits L H (clean (replicate (Suc n) s))) = [] \<and>
   rrbb (fst (hdlc_rec_bits L H (clean (replicate (Suc n) s)))) = [] \<and>
   prev_raw (fst (hdlc_rec_bits L H (clean (replicate (Suc n) s)))) = s \<and>
   pat_det (fst (hdlc_rec_bits L H (clean (replicate (Suc n) s)))) = 0xfe \<and>
   olen (fst (hdlc_rec_bits L H (clean (replicate (Suc n) s)))) = - 1 \<and>
   frame_len (fst (hdlc_rec_bits L H (clean (replicate (Suc n) s)))) = 0"
proof (induction n arbitrary: H)
  case 0
  have a: "shift_in8 (pat_det H) (s = prev_raw H) = 0xfe"
    using "0.prems" abort_one [of "pat_det H"] by simp
  note st = hdlc_rec_bit_abort [OF a, of L]
  have rep: "replicate (Suc 0) s = [s]" by simp
  show ?case
    unfolding rep clean_Cons clean_Nil hdlc_rec_bits_Cons using st by simp
next
  case (Suc n)
  let ?H1 = "fst (hdlc_rec_bit L H s False)"
  have k: "6 - Suc n \<le> 5" by simp
  have q: "shift_in8 (pat_det H) (s = prev_raw H) \<noteq> 0x7e"
    "shift_in8 (pat_det H) (s = prev_raw H) \<noteq> 0xfe"
    using quiet_one [OF Suc.prems(1) k] Suc.prems(3) by simp_all
  note st = hdlc_rec_bit_quiet [OF q, of L]
  have "trail (shift_in8 (pat_det H) True) (Suc (6 - Suc n))"
    using trail_shift_one [OF Suc.prems(1)] by simp
  moreover have "Suc (6 - Suc n) = 6 - n" using Suc.prems(2) by simp
  ultimately have t1: "trail (pat_det ?H1) (6 - n)"
    using st(4) Suc.prems(3) by simp
  have n: "n \<le> 6" using Suc.prems(2) by simp
  have p1: "prev_raw ?H1 = s" by (rule st(3))
  note ih = Suc.IH [OF t1 n p1]
  have rep: "replicate (Suc (Suc n)) s = s # replicate (Suc n) s" by simp
  show ?case
    unfolding rep clean_Cons hdlc_rec_bits_Cons using ih st(1) by simp
qed

lemma quiet_ones_ff:
  "quiet 0xff (replicate n True) \<and> foldl shift_in8 0xff (replicate n True) = 0xff"
  by (induction n) (simp_all add: shift_ff)

lemma shift_fe_one: "shift_in8 0xfe True = 0xff"
  by (simp add: shift_in8_def)

lemma quiet_ones_after_abort:
  assumes "p = 0xfe \<or> p = 0xff"
  shows "quiet p (replicate n True) \<and>
         foldl shift_in8 p (replicate n True) = (if n = 0 then p else 0xff)"
proof (cases n)
  case 0
  then show ?thesis by simp
next
  case (Suc m)
  show ?thesis
    using assms quiet_ones_ff [of m] unfolding Suc
    by (auto simp: shift_ff shift_fe_one)
qed

text \<open>
  Eight one data bits in a row, received in a state whose detector holds \<open>k\<close> one bits
  after its newest zero bit: the abort comes with bit \<open>7 - k\<close>, the bits after it stay
  in the raw bit buffer.
\<close>

lemma eight_ones:
  assumes t: "trail (pat_det H) k" and k: "k \<le> 6" and s: "prev_raw H = s"
  shows "snd (hdlc_rec_bits L H (clean (replicate 8 s))) = []"
    and "rrbb (fst (hdlc_rec_bits L H (clean (replicate 8 s)))) = replicate (Suc k) s"
    and "prev_raw (fst (hdlc_rec_bits L H (clean (replicate 8 s)))) = s"
    and "pat_det (fst (hdlc_rec_bits L H (clean (replicate 8 s)))) = 0xff"
    and "olen (fst (hdlc_rec_bits L H (clean (replicate 8 s)))) = - 1"
    and "frame_len (fst (hdlc_rec_bits L H (clean (replicate 8 s)))) = 0"
proof -
  let ?n = "6 - k"
  let ?H1 = "fst (hdlc_rec_bits L H (clean (replicate (Suc ?n) s)))"
  have t': "trail (pat_det H) (6 - ?n)" using t k by simp
  note a = ones_to_abort [OF t' _ s, of L]
  have a1: "snd (hdlc_rec_bits L H (clean (replicate (Suc ?n) s))) = []"
    "rrbb ?H1 = []" "prev_raw ?H1 = s" "pat_det ?H1 = 0xfe" "olen ?H1 = - 1" "frame_len ?H1 = 0"
    using a by simp_all
  have q: "quiet (pat_det ?H1) (replicate (Suc k) True)"
    using quiet_ones_after_abort [of "pat_det ?H1" "Suc k"] a1(4) by simp
  have fo: "foldl shift_in8 (pat_det ?H1) (replicate (Suc k) True) = 0xff"
    using quiet_ones_after_abort [of "pat_det ?H1" "Suc k"] a1(4) by simp
  note r = rec_quiet [OF a1(3) q, of L]
  have split: "replicate 8 s = replicate (Suc ?n) s @ nrzi_encode s (replicate (Suc k) True)"
    unfolding nrzi_encode_ones replicate_add [symmetric] using k by simp
  have run: "hdlc_rec_bits L H (clean (replicate 8 s)) =
      (fst (hdlc_rec_bits L ?H1 (clean (nrzi_encode s (replicate (Suc k) True)))),
       snd (hdlc_rec_bits L H (clean (replicate (Suc ?n) s))) @
       snd (hdlc_rec_bits L ?H1 (clean (nrzi_encode s (replicate (Suc k) True)))))"
    unfolding split clean_append hdlc_rec_bits_append by simp
  let ?H2 = "fst (hdlc_rec_bits L ?H1 (clean (nrzi_encode s (replicate (Suc k) True))))"
  have r1: "snd (hdlc_rec_bits L ?H1 (clean (nrzi_encode s (replicate (Suc k) True)))) = []"
    using r by blast
  have r2: "rrbb ?H2 = rrbb ?H1 @ nrzi_encode s (replicate (Suc k) True)"
    using r by blast
  have r3: "prev_raw ?H2 = line_after s (replicate (Suc k) True)"
    using r by blast
  have r4: "pat_det ?H2 = foldl shift_in8 (pat_det ?H1) (replicate (Suc k) True)"
    using r by blast
  have r5: "olen ?H2 = - 1 \<and> frame_len ?H2 = frame_len ?H1"
    using r a1(5) by blast
  have f: "fst (hdlc_rec_bits L H (clean (replicate 8 s))) = ?H2"
    unfolding run by (rule fst_conv)
  show "snd (hdlc_rec_bits L H (clean (replicate 8 s))) = []"
    unfolding run using a1(1) r1 by simp
  show "rrbb (fst (hdlc_rec_bits L H (clean (replicate 8 s)))) = replicate (Suc k) s"
    unfolding f using r2 a1(2) by (simp add: nrzi_encode_ones)
  show "prev_raw (fst (hdlc_rec_bits L H (clean (replicate 8 s)))) = s"
    unfolding f using r3 by (simp add: line_after_ones)
  show "pat_det (fst (hdlc_rec_bits L H (clean (replicate 8 s)))) = 0xff"
    unfolding f using r4 fo by simp
  show "olen (fst (hdlc_rec_bits L H (clean (replicate 8 s)))) = - 1"
    unfolding f using r5 by blast
  show "frame_len (fst (hdlc_rec_bits L H (clean (replicate 8 s)))) = 0"
    unfolding f using r5 a1(6) by simp
qed

lemma init_fields:
  "prev_raw (hdlc_rec_init_state L) = False"
  "pat_det (hdlc_rec_init_state L) = 0"
  "rrbb (hdlc_rec_init_state L) = []"
  "olen (hdlc_rec_init_state L) = - 1"
  by (simp_all add: hdlc_rec_init_state_def rrbb_new_def)

lemma shift_fe_zero: "shift_in8 0xfe False = 0x7f"
  by (simp add: shift_in8_def)

lemma rec_start_low:
  assumes m: "0 \<le> AX25_MIN_PACKET_LEN L"
  shows "snd (hdlc_rec_bits L (hdlc_rec_init_state L) (clean (nrzi_encode False flag_bits))) = []"
    and "rrbb (fst (hdlc_rec_bits L (hdlc_rec_init_state L) (clean (nrzi_encode False flag_bits)))) =
           [line_after False flag_bits]"
    and "prev_raw (fst (hdlc_rec_bits L (hdlc_rec_init_state L) (clean (nrzi_encode False flag_bits)))) =
           line_after False flag_bits"
    and "sync (pat_det (fst (hdlc_rec_bits L (hdlc_rec_init_state L) (clean (nrzi_encode False flag_bits))))) 0"
proof -
  have y: "sync (pat_det (hdlc_rec_init_state L)) 0"
    by (simp add: init_fields sync_def trail_bits)
  have j: "(0::nat) < 5" by simp
  note b = rec_frame_body [OF init_fields(1) y j, where L = L and xs = "[]"]
  have e: "bit_stuff 0 [] @ flag_bits = flag_bits" by simp
  show "snd (hdlc_rec_bits L (hdlc_rec_init_state L) (clean (nrzi_encode False flag_bits))) = []"
    using b(1) m unfolding e by (simp add: init_fields MIN_FRAME_LEN_def)
  show "rrbb (fst (hdlc_rec_bits L (hdlc_rec_init_state L) (clean (nrzi_encode False flag_bits)))) =
           [line_after False flag_bits]"
    using b(2) unfolding e .
  show "prev_raw (fst (hdlc_rec_bits L (hdlc_rec_init_state L) (clean (nrzi_encode False flag_bits)))) =
           line_after False flag_bits"
    using b(3) unfolding e .
  show "sync (pat_det (fst (hdlc_rec_bits L (hdlc_rec_init_state L) (clean (nrzi_encode False flag_bits))))) 0"
    using b(4) unfolding e by (simp add: sync_def trail_bits)
qed

lemma rec_start_high:
  shows "snd (hdlc_rec_bits L (hdlc_rec_init_state L) (clean (nrzi_encode True flag_bits))) = []"
    and "rrbb (fst (hdlc_rec_bits L (hdlc_rec_init_state L) (clean (nrzi_encode True flag_bits)))) =
           [line_after True flag_bits]"
    and "prev_raw (fst (hdlc_rec_bits L (hdlc_rec_init_state L) (clean (nrzi_encode True flag_bits)))) =
           line_after True flag_bits"
    and "sync (pat_det (fst (hdlc_rec_bits L (hdlc_rec_init_state L) (clean (nrzi_encode True flag_bits))))) 0"
proof -
  let ?H0 = "hdlc_rec_init_state L"
  let ?H1 = "fst (hdlc_rec_bits L ?H0 (clean (replicate (Suc 6) False)))"
  have enc: "nrzi_encode True flag_bits = replicate (Suc 6) False @ [True]"
    by (simp add: flag_bits_def Let_def eval_nat_numeral)
  have la: "line_after True flag_bits = True"
    by (simp add: flag_bits_def)
  have t: "trail (pat_det ?H0) (6 - 6)"
    by (simp add: init_fields trail_bits)
  have a: "snd (hdlc_rec_bits L ?H0 (clean (replicate (Suc 6) False))) = []"
    "rrbb ?H1 = []" "prev_raw ?H1 = False" "pat_det ?H1 = 0xfe"
    using ones_to_abort [OF t _ init_fields(1), of L] by simp_all
  have q: "shift_in8 (pat_det ?H1) (True = prev_raw ?H1) \<noteq> 0x7e"
    "shift_in8 (pat_det ?H1) (True = prev_raw ?H1) \<noteq> 0xfe"
    unfolding a by (simp_all add: shift_fe_zero)
  note st = hdlc_rec_bit_quiet [OF q, of L]
  have run: "hdlc_rec_bits L ?H0 (clean (nrzi_encode True flag_bits)) =
      (fst (hdlc_rec_bit L ?H1 True False), [])"
    unfolding enc hdlc_rec_bits_snoc a(1) st(1) by simp
  show "snd (hdlc_rec_bits L ?H0 (clean (nrzi_encode True flag_bits))) = []"
    unfolding run by simp
  show "rrbb (fst (hdlc_rec_bits L ?H0 (clean (nrzi_encode True flag_bits)))) =
           [line_after True flag_bits]"
    unfolding run la fst_conv st(2) a(2) by simp
  show "prev_raw (fst (hdlc_rec_bits L ?H0 (clean (nrzi_encode True flag_bits)))) =
           line_after True flag_bits"
    unfolding run la fst_conv st(3) by (rule refl)
  show "sync (pat_det (fst (hdlc_rec_bits L ?H0 (clean (nrzi_encode True flag_bits))))) 0"
    unfolding run fst_conv st(4) a by (simp add: shift_fe_zero sync_def trail_7f)
qed

lemma rec_start:
  assumes m: "0 \<le> AX25_MIN_PACKET_LEN L"
  shows "snd (hdlc_rec_bits L (hdlc_rec_init_state L) (clean (nrzi_encode s0 flag_bits))) = []"
    and "rrbb (fst (hdlc_rec_bits L (hdlc_rec_init_state L) (clean (nrzi_encode s0 flag_bits)))) =
           [line_after s0 flag_bits]"
    and "prev_raw (fst (hdlc_rec_bits L (hdlc_rec_init_state L) (clean (nrzi_encode s0 flag_bits)))) =
           line_after s0 flag_bits"
    and "sync (pat_det (fst (hdlc_rec_bits L (hdlc_rec_init_state L) (clean (nrzi_encode s0 flag_bits))))) 0"
  using rec_start_low [OF m] rec_start_high [of L] by (cases s0; simp)+

lemma rec2_bits_append:
  "rec2_bits L H (a @ b) =
     (case rec2_bits L H a of None \<Rightarrow> None | Some H' \<Rightarrow> rec2_bits L H' b)"
  by (induction a arbitrary: H) (auto split: option.splits)

lemma trail_bit_stuff:
  "trail p k \<Longrightarrow> k < 5 \<Longrightarrow> trail (foldl shift_in8 p (bit_stuff k ds)) (stuff_count k ds)"
proof (induction ds arbitrary: p k)
  case Nil
  then show ?case by simp
next
  case (Cons d ds)
  show ?case
  proof (cases d)
    case False
    have "trail (shift_in8 p False) 0" by (rule trail_shift_zero)
    from Cons.IH [OF this] show ?thesis using False by simp
  next
    case True
    have k6: "k \<le> 6" using Cons.prems(2) by simp
    have t1: "trail (shift_in8 p True) (Suc k)"
      by (rule trail_shift_one [OF Cons.prems(1) k6])
    show ?thesis
    proof (cases "Suc k = 5")
      case False
      then have "Suc k < 5" using Cons.prems(2) by simp
      from Cons.IH [OF t1 this] show ?thesis using True False by simp
    next
      case k5: True
      have "trail (shift_in8 (shift_in8 p True) False) 0" by (rule trail_shift_zero)
      from Cons.IH [OF this] show ?thesis using True k5 by simp
    qed
  qed
qed

text \<open>
  One data bit, with the stuffed zero that may follow it, through the decoder of the
  dispatcher.
\<close>

lemma rec2_bit_one:
  assumes t: "trail p k" and k: "k < 5"
  shows "rec2_bits L \<lparr>h2_prev_raw = s, h2_pat_det = p, h2_oacc = a, h2_olen = n, h2_frame = fr\<rparr>
           (nrzi_encode s (bit_stuff k [d])) =
         Some \<lparr>h2_prev_raw = line_after s (bit_stuff k [d]),
               h2_pat_det = foldl shift_in8 p (bit_stuff k [d]),
               h2_oacc = shift_in8 a d,
               h2_olen = (if n + 1 = 8 then 0 else n + 1),
               h2_frame = (if n + 1 = 8 \<and> int (length fr) < MAX_FRAME_LEN L
                           then fr @ [shift_in8 a d] else fr)\<rparr>"
proof (cases d)
  case False
  have k5: "k \<le> 5" and k4: "k \<le> 4" using k by simp_all
  have q: "shift_in8 p False \<noteq> 0x7e" "shift_in8 p False \<noteq> 0xfe"
    using quiet_zero [OF t k5] by simp_all
  have nd: "shift_in8 p False AND 0xfc \<noteq> 0x7c" by (rule nodestuff_zero [OF t k4])
  show ?thesis
    using False q nd by (simp add: rec2_bit_def Let_def)
next
  case True
  have k5: "k \<le> 5" and k6: "k \<le> 6" using k by simp_all
  have q: "shift_in8 p True \<noteq> 0x7e" "shift_in8 p True \<noteq> 0xfe"
    using quiet_one [OF t k5] by simp_all
  have nd: "shift_in8 p True AND 0xfc \<noteq> 0x7c" by (rule nodestuff_one)
  show ?thesis
  proof (cases "Suc k = 5")
    case False
    show ?thesis
      using True False q nd by (simp add: rec2_bit_def Let_def)
  next
    case k5': True
    have t5: "trail (shift_in8 p True) 5"
      using trail_shift_one [OF t k6] k5' by simp
    have q2: "shift_in8 (shift_in8 p True) False \<noteq> 0x7e"
      "shift_in8 (shift_in8 p True) False \<noteq> 0xfe"
      using quiet_zero [OF t5] by simp_all
    have ds: "shift_in8 (shift_in8 p True) False AND 0xfc = 0x7c" by (rule destuff_zero5 [OF t5])
    show ?thesis
      using True k5' q nd q2 ds by (simp add: rec2_bit_def Let_def)
  qed
qed

lemma bit_stuff_Cons:
  "bit_stuff k (d # ds) = bit_stuff k [d] @ bit_stuff (stuff_count k [d]) ds"
  using bit_stuff_append [of k "[d]" ds] by simp

lemma rec2_partial:
  "trail p k \<Longrightarrow> k < 5 \<Longrightarrow> n + int (length ds) < 8 \<Longrightarrow>
   rec2_bits L \<lparr>h2_prev_raw = s, h2_pat_det = p, h2_oacc = a, h2_olen = n, h2_frame = fr\<rparr>
     (nrzi_encode s (bit_stuff k ds)) =
   Some \<lparr>h2_prev_raw = line_after s (bit_stuff k ds),
         h2_pat_det = foldl shift_in8 p (bit_stuff k ds),
         h2_oacc = foldl shift_in8 a ds,
         h2_olen = n + int (length ds),
         h2_frame = fr\<rparr>"
proof (induction ds arbitrary: p k n s a)
  case Nil
  then show ?case by simp
next
  case (Cons d ds)
  define s1 where "s1 = line_after s (bit_stuff k [d])"
  define p1 where "p1 = foldl shift_in8 p (bit_stuff k [d])"
  define k1 where "k1 = stuff_count k [d]"
  define a1 where "a1 = shift_in8 a d"
  have t1: "trail p1 k1"
    unfolding p1_def k1_def by (rule trail_bit_stuff [OF Cons.prems(1,2)])
  have k1: "k1 < 5"
    unfolding k1_def by (rule stuff_count_lt [OF Cons.prems(2)])
  have n1: "(n + 1) + int (length ds) < 8" using Cons.prems(3) by simp
  have n8: "n + 1 \<noteq> 8" using Cons.prems(3) by simp
  have one: "rec2_bits L \<lparr>h2_prev_raw = s, h2_pat_det = p, h2_oacc = a, h2_olen = n, h2_frame = fr\<rparr>
           (nrzi_encode s (bit_stuff k [d])) =
         Some \<lparr>h2_prev_raw = s1, h2_pat_det = p1, h2_oacc = a1, h2_olen = n + 1, h2_frame = fr\<rparr>"
    unfolding s1_def p1_def a1_def
    using rec2_bit_one [OF Cons.prems(1,2), of L s a n fr d] n8 by simp
  have ih: "rec2_bits L \<lparr>h2_prev_raw = s1, h2_pat_det = p1, h2_oacc = a1, h2_olen = n + 1, h2_frame = fr\<rparr>
     (nrzi_encode s1 (bit_stuff k1 ds)) =
   Some \<lparr>h2_prev_raw = line_after s1 (bit_stuff k1 ds),
         h2_pat_det = foldl shift_in8 p1 (bit_stuff k1 ds),
         h2_oacc = foldl shift_in8 a1 ds,
         h2_olen = n + 1 + int (length ds),
         h2_frame = fr\<rparr>"
    by (rule Cons.IH [OF t1 k1 n1])
  have e1: "line_after s (bit_stuff k (d # ds)) = line_after s1 (bit_stuff k1 ds)"
    unfolding bit_stuff_Cons [of k d ds] line_after_append s1_def k1_def by (rule refl)
  have e2: "foldl shift_in8 p (bit_stuff k (d # ds)) = foldl shift_in8 p1 (bit_stuff k1 ds)"
    unfolding bit_stuff_Cons [of k d ds] foldl_append p1_def k1_def by (rule refl)
  have e3: "foldl shift_in8 a (d # ds) = foldl shift_in8 a1 ds"
    unfolding a1_def by simp
  have e4: "n + int (length (d # ds)) = n + 1 + int (length ds)" by simp
  have enc: "nrzi_encode s (bit_stuff k (d # ds)) =
      nrzi_encode s (bit_stuff k [d]) @ nrzi_encode s1 (bit_stuff k1 ds)"
    unfolding bit_stuff_Cons [of k d ds] nrzi_encode_append s1_def k1_def by (rule refl)
  show ?case
    unfolding enc rec2_bits_append one e1 e2 e3 e4 using ih by simp
qed

lemma upt_0_8: "[0..<8] = [0, 1, 2, 3, 4, 5, 6, 7 :: nat]"
  by (simp add: upt_rec)

lemma byte_bits_split:
  "byte_bits b = [bit b 0, bit b 1, bit b 2, bit b 3, bit b 4, bit b 5, bit b 6] @ [bit b 7]"
  by (simp add: byte_bits_def upt_0_8)

lemma foldl_shift_byte:
  "shift_in8 (foldl shift_in8 a [bit b 0, bit b 1, bit b 2, bit b 3, bit b 4, bit b 5, bit b 6])
     (bit b 7) = b"
  by (simp add: word8_eq_iff all8 shift_bits)

lemma rec2_octet:
  assumes t: "trail p k" and k: "k < 5" and l: "int (length fr) < MAX_FRAME_LEN L"
  shows "rec2_bits L \<lparr>h2_prev_raw = s, h2_pat_det = p, h2_oacc = a, h2_olen = 0, h2_frame = fr\<rparr>
           (nrzi_encode s (bit_stuff k (byte_bits b))) =
         Some \<lparr>h2_prev_raw = line_after s (bit_stuff k (byte_bits b)),
               h2_pat_det = foldl shift_in8 p (bit_stuff k (byte_bits b)),
               h2_oacc = b, h2_olen = 0, h2_frame = fr @ [b]\<rparr>"
proof -
  define d7 where "d7 = [bit b 0, bit b 1, bit b 2, bit b 3, bit b 4, bit b 5, bit b 6]"
  define s1 where "s1 = line_after s (bit_stuff k d7)"
  define p1 where "p1 = foldl shift_in8 p (bit_stuff k d7)"
  define k1 where "k1 = stuff_count k d7"
  define a1 where "a1 = foldl shift_in8 a d7"
  have bb: "byte_bits b = d7 @ [bit b 7]" unfolding d7_def by (rule byte_bits_split)
  have l7: "0 + int (length d7) < 8" unfolding d7_def by simp
  have l7': "0 + int (length d7) = 7" unfolding d7_def by simp
  have t1: "trail p1 k1" unfolding p1_def k1_def by (rule trail_bit_stuff [OF t k])
  have k1: "k1 < 5" unfolding k1_def by (rule stuff_count_lt [OF k])
  have part: "rec2_bits L \<lparr>h2_prev_raw = s, h2_pat_det = p, h2_oacc = a, h2_olen = 0, h2_frame = fr\<rparr>
      (nrzi_encode s (bit_stuff k d7)) =
      Some \<lparr>h2_prev_raw = s1, h2_pat_det = p1, h2_oacc = a1, h2_olen = 7, h2_frame = fr\<rparr>"
    using rec2_partial [OF t k l7, of L s a fr] unfolding s1_def p1_def a1_def l7' .
  have a8: "shift_in8 a1 (bit b 7) = b"
    unfolding a1_def d7_def by (rule foldl_shift_byte)
  have last: "rec2_bits L \<lparr>h2_prev_raw = s1, h2_pat_det = p1, h2_oacc = a1, h2_olen = 7, h2_frame = fr\<rparr>
      (nrzi_encode s1 (bit_stuff k1 [bit b 7])) =
      Some \<lparr>h2_prev_raw = line_after s1 (bit_stuff k1 [bit b 7]),
            h2_pat_det = foldl shift_in8 p1 (bit_stuff k1 [bit b 7]),
            h2_oacc = b, h2_olen = 0, h2_frame = fr @ [b]\<rparr>"
    using rec2_bit_one [OF t1 k1, of L s1 a1 7 fr "bit b 7"] l unfolding a8 by simp
  have e1: "line_after s (bit_stuff k (byte_bits b)) = line_after s1 (bit_stuff k1 [bit b 7])"
    unfolding bb bit_stuff_append line_after_append s1_def k1_def by (rule refl)
  have e2: "foldl shift_in8 p (bit_stuff k (byte_bits b)) = foldl shift_in8 p1 (bit_stuff k1 [bit b 7])"
    unfolding bb bit_stuff_append foldl_append p1_def k1_def by (rule refl)
  have enc: "nrzi_encode s (bit_stuff k (byte_bits b)) =
      nrzi_encode s (bit_stuff k d7) @ nrzi_encode s1 (bit_stuff k1 [bit b 7])"
    unfolding bb bit_stuff_append nrzi_encode_append s1_def k1_def by (rule refl)
  show ?thesis
    unfolding enc rec2_bits_append part e1 e2 using last by simp
qed

lemma rec2_octets:
  "trail p k \<Longrightarrow> k < 5 \<Longrightarrow> int (length fr + length bs) \<le> MAX_FRAME_LEN L \<Longrightarrow>
   \<exists>s' p' a'. rec2_bits L \<lparr>h2_prev_raw = s, h2_pat_det = p, h2_oacc = a, h2_olen = 0, h2_frame = fr\<rparr>
       (nrzi_encode s (bit_stuff k (concat (map byte_bits bs)))) =
     Some \<lparr>h2_prev_raw = s', h2_pat_det = p', h2_oacc = a', h2_olen = 0, h2_frame = fr @ bs\<rparr>"
proof (induction bs arbitrary: p k s a fr)
  case Nil
  then show ?case by simp
next
  case (Cons b bs)
  define s1 where "s1 = line_after s (bit_stuff k (byte_bits b))"
  define p1 where "p1 = foldl shift_in8 p (bit_stuff k (byte_bits b))"
  define k1 where "k1 = stuff_count k (byte_bits b)"
  have l: "int (length fr) < MAX_FRAME_LEN L" using Cons.prems(3) by simp
  have l1: "int (length (fr @ [b]) + length bs) \<le> MAX_FRAME_LEN L" using Cons.prems(3) by simp
  have t1: "trail p1 k1" unfolding p1_def k1_def by (rule trail_bit_stuff [OF Cons.prems(1,2)])
  have k1: "k1 < 5" unfolding k1_def by (rule stuff_count_lt [OF Cons.prems(2)])
  have oct: "rec2_bits L \<lparr>h2_prev_raw = s, h2_pat_det = p, h2_oacc = a, h2_olen = 0, h2_frame = fr\<rparr>
           (nrzi_encode s (bit_stuff k (byte_bits b))) =
         Some \<lparr>h2_prev_raw = s1, h2_pat_det = p1, h2_oacc = b, h2_olen = 0, h2_frame = fr @ [b]\<rparr>"
    unfolding s1_def p1_def by (rule rec2_octet [OF Cons.prems(1,2) l])
  obtain s' p' a' where ih:
    "rec2_bits L \<lparr>h2_prev_raw = s1, h2_pat_det = p1, h2_oacc = b, h2_olen = 0, h2_frame = fr @ [b]\<rparr>
       (nrzi_encode s1 (bit_stuff k1 (concat (map byte_bits bs)))) =
     Some \<lparr>h2_prev_raw = s', h2_pat_det = p', h2_oacc = a', h2_olen = 0, h2_frame = (fr @ [b]) @ bs\<rparr>"
    using Cons.IH [OF t1 k1 l1, of s1 b] by blast
  have enc: "nrzi_encode s (bit_stuff k (concat (map byte_bits (b # bs)))) =
      nrzi_encode s (bit_stuff k (byte_bits b)) @ nrzi_encode s1 (bit_stuff k1 (concat (map byte_bits bs)))"
    unfolding s1_def k1_def by (simp add: bit_stuff_append nrzi_encode_append)
  show ?case
    unfolding enc rec2_bits_append oct using ih by simp
qed

lemma actual_fcs_octets: "actual_fcs (fbuf @ fcs_octets f False) = f"
proof -
  have "ucast (ucast f :: 8 word) OR push_bit 8 (ucast (ucast (drop_bit 8 f) :: 8 word)) = (f :: 16 word)"
    by (rule bit_word_eqI) (auto simp: bit_simps)
  then show ?thesis
    by (simp add: actual_fcs_def fcs_octets_def nth_append)
qed

lemma hdlc_rec2_block_frame:
  assumes lo: "AX25_MIN_PACKET_LEN L \<le> int (length fbuf)"
    and hi: "int (length fbuf) \<le> AX25_MAX_PACKET_LEN L"
    and f: "fcs fbuf = f"
  shows "hdlc_rec2_block L fcs
           (seed # nrzi_encode seed (bit_stuff 0 (concat (map byte_bits (fbuf @ fcs_octets f False))))) =
         Some fbuf"
proof -
  define bs where "bs = fbuf @ fcs_octets f False"
  have lb: "length bs = length fbuf + 2" unfolding bs_def by (simp add: fcs_octets_def)
  have l: "int (length ([] :: 8 word list) + length bs) \<le> MAX_FRAME_LEN L"
    using hi lb by (simp add: MAX_FRAME_LEN_def)
  have t: "trail 0 0" by (simp add: trail_bits)
  obtain s' p' a' where r:
    "rec2_bits L \<lparr>h2_prev_raw = seed, h2_pat_det = 0, h2_oacc = 0, h2_olen = 0, h2_frame = []\<rparr>
       (nrzi_encode seed (bit_stuff 0 (concat (map byte_bits bs)))) =
     Some \<lparr>h2_prev_raw = s', h2_pat_det = p', h2_oacc = a', h2_olen = 0, h2_frame = [] @ bs\<rparr>"
    using rec2_octets [OF t _ l, of seed 0] by auto
  have tk: "take (length bs - 2) bs = fbuf" unfolding bs_def by (simp add: fcs_octets_def)
  have af: "actual_fcs bs = f" unfolding bs_def by (rule actual_fcs_octets)
  have mn: "MIN_FRAME_LEN L \<le> int (length bs)" using lo lb by (simp add: MIN_FRAME_LEN_def)
  show ?thesis
    unfolding bs_def [symmetric] hdlc_rec2_block_def
    using r tk af mn lb f by simp
qed

lemma sent_raws:
  "drop (length (tone S)) (tone (snd (ax25_only_hdlc_send_frame fcs S fbuf bad))) =
     nrzi_encode (output_chan S)
       (flag_bits @ bit_stuff 0 (frame_data_bits fcs fbuf bad) @ flag_bits)"
  by (simp add: send_frame_emit tone_emit)

lemma receive_bits_ok:
  "decoder_index_ok chan subchan slicer \<Longrightarrow>
   receive_bits L fcs chan subchan slicer H raws =
     dispatch_blocks L fcs chan subchan slicer [] (snd (hdlc_rec_bits L H (clean raws)))"
  by (simp add: receive_bits_def)

lemma decoder_index_ok_0: "decoder_index_ok 0 0 0"
  by (simp add: decoder_index_ok_def MAX_CHANS_def MAX_RADIO_CHANS_def MAX_ADEVS_def
      MAX_SUBCHANS_def MAX_SLICERS_def)

lemma dispatch_one:
  assumes "hdlc_rec2_block L fcs b = Some octets" "decoder_index_ok chan subchan slicer"
  shows "dispatch_blocks L fcs chan subchan slicer [] [b] =
     Some [\<lparr>item_chan = chan, item_subchan = subchan, item_slice = slicer, item_pp = octets,
            item_fec_type = fec_type_none, item_retries = RETRY_NONE\<rparr>]"
  using assms
  by (simp add: dlq_rec_frame_def decoder_index_ok_def MAX_CHANS_def MAX_RADIO_CHANS_def
      MAX_ADEVS_def MAX_TOTAL_CHANS_def)

lemma frame_long_enough:
  assumes "AX25_MIN_PACKET_LEN L \<le> int (length fbuf)"
  shows "MIN_FRAME_LEN L * 8 \<le>
    int (length [r :: bool] + length (bit_stuff 0 (concat (map byte_bits (fbuf @ fcs_octets f False)))))"
proof -
  have "8 * (length fbuf + 2) \<le> length (bit_stuff 0 (concat (map byte_bits (fbuf @ fcs_octets f False))))"
    using length_bit_stuff [of "concat (map byte_bits (fbuf @ fcs_octets f False))" 0]
    by (simp add: length_concat_byte_bits length_byte_bits fcs_octets_def)
  then show ?thesis using assms by (simp add: MIN_FRAME_LEN_def)
qed



section \<open>Abort: what is discarded and what is handed over\<close>

lemma hdlc_rec_bits_append_snd:
  "snd (hdlc_rec_bits L H (a @ b)) =
     snd (hdlc_rec_bits L H a) @ snd (hdlc_rec_bits L (fst (hdlc_rec_bits L H a)) b)"
  unfolding hdlc_rec_bits_append by simp

lemma crc_head0: "foldl crc_octet 0xFFFF head0 = 0xFFFF"
  by (simp add: head0_def crc_octet_def crc_bit_def byte_bits_def upt_0_8)

lemma fcs_calc_head0: "fcs_calc (head0 @ bs) = fcs_calc bs"
  by (simp add: fcs_calc_def crc_head0)

lemma head0_bits:
  "concat (map byte_bits head0) =
     [False, True, True, True, True, False, True, True,
      False, False, True, True, False, False, False, False]"
  by (simp add: head0_def byte_bits_def upt_0_8)

lemma head0_unstuffed:
  "bit_stuff 0 ([False, True, True, True, True, False, True, True,
      False, False, True, True, False, False, False, False] @ ds) =
     [False, True, True, True, True, False, True, True,
      False, False, True, True, False, False, False, False] @ bit_stuff 0 ds"
  by simp

text \<open>
  Eight one data bits arrive in a state in step with the sender, then stuffed data and the
  closing flag: what the decoder hands over.
\<close>

lemma rec_ones_body:
  assumes s: "prev_raw H = s" and t: "trail (pat_det H) k" and k: "k \<le> 6" and j: "j < 5"
  shows "snd (hdlc_rec_bits L H
           (clean (replicate 8 s @ nrzi_encode s (bit_stuff j xs @ flag_bits)))) =
         (if MIN_FRAME_LEN L * 8 \<le> int (Suc k + length (bit_stuff j xs))
          then [replicate (Suc k) s @ nrzi_encode s (bit_stuff j xs)] else [])"
proof -
  define H3 where "H3 = fst (hdlc_rec_bits L H (clean (replicate 8 s)))"
  note e = eight_ones [OF t k s, of L, folded H3_def]
  have y: "sync (pat_det H3) j" unfolding e(4) by (simp add: sync_def)
  note b = rec_frame_body [OF e(3) y j, of L xs]
  show ?thesis
    unfolding clean_append hdlc_rec_bits_append_snd H3_def [symmetric] e(1) b(1) e(2)
    by simp
qed

lemma bit_stuff_zeros: "bit_stuff 0 (replicate n False) = replicate n False"
  by (induction n) simp_all

text \<open>
  Claim C3, amended. When the bit that \<open>hdlc_rec_bit\<close> receives makes the pattern detector
  \<open>0xfe\<close>, the call hands nothing over and leaves \<open>olen = -1\<close>, \<open>frame_len = 0\<close> and an empty
  raw bit buffer. Let the decoder be in step with the sender (its detector holds \<open>k\<close> one
  bits after the newest zero bit, \<open>k \<le> 6\<close>) and let eight one data bits arrive (the line
  keeps its state \<open>s\<close> for eight bit times). No raw bit buffer is handed over while they
  arrive, and afterwards \<open>olen = -1\<close>, \<open>frame_len = 0\<close> and the raw bit buffer holds only the
  last \<open>k + 1\<close> of the eight bits: all that was received of the frame before is discarded.
  The decoder goes on collecting raw bits, though. When the rest of the frame (stuffed
  data bits, the sender's ones counter being \<open>j\<close>) and the closing flag follow, the closing
  flag hands the raw bits received since the abort over to the dispatcher, provided they
  are at least \<open>MIN_FRAME_LEN * 8\<close>; otherwise nothing is handed over. So the events that
  result (for a decoder whose indices are within the bounds that \<open>hdlc_rec_bit\<close> asserts)
  are those the dispatcher makes of the rest of the frame alone: none if the rest is short
  or fails the checksum.
\<close>

theorem hdlc_rec_abort_discards:
  assumes s: "prev_raw H = s" and t: "trail (pat_det H) k" and k: "k \<le> 6" and j: "j < 5"
    and ix: "decoder_index_ok chan subchan slicer"
  shows "(shift_in8 (pat_det H) ((if clobber then \<not> raw else raw) = prev_raw H) = 0xfe \<longrightarrow>
            snd (hdlc_rec_bit L H raw clobber) = None \<and>
            olen (fst (hdlc_rec_bit L H raw clobber)) = - 1 \<and>
            frame_len (fst (hdlc_rec_bit L H raw clobber)) = 0 \<and>
            rrbb (fst (hdlc_rec_bit L H raw clobber)) = []) \<and>
         snd (hdlc_rec_bits L H (clean (replicate 8 s))) = [] \<and>
         olen (fst (hdlc_rec_bits L H (clean (replicate 8 s)))) = - 1 \<and>
         frame_len (fst (hdlc_rec_bits L H (clean (replicate 8 s)))) = 0 \<and>
         rrbb (fst (hdlc_rec_bits L H (clean (replicate 8 s)))) = replicate (Suc k) s \<and>
         snd (hdlc_rec_bits L H
               (clean (replicate 8 s @ nrzi_encode s (bit_stuff j xs @ flag_bits)))) =
           (if MIN_FRAME_LEN L * 8 \<le> int (Suc k + length (bit_stuff j xs))
            then [replicate (Suc k) s @ nrzi_encode s (bit_stuff j xs)] else []) \<and>
         receive_bits L fcs chan subchan slicer H
               (replicate 8 s @ nrzi_encode s (bit_stuff j xs @ flag_bits)) =
           dispatch_blocks L fcs chan subchan slicer []
             (if MIN_FRAME_LEN L * 8 \<le> int (Suc k + length (bit_stuff j xs))
              then [replicate (Suc k) s @ nrzi_encode s (bit_stuff j xs)] else [])"
proof -
  have a: "shift_in8 (pat_det H) ((if clobber then \<not> raw else raw) = prev_raw H) = 0xfe \<longrightarrow>
            snd (hdlc_rec_bit L H raw clobber) = None \<and>
            olen (fst (hdlc_rec_bit L H raw clobber)) = - 1 \<and>
            frame_len (fst (hdlc_rec_bit L H raw clobber)) = 0 \<and>
            rrbb (fst (hdlc_rec_bit L H raw clobber)) = []"
    by (auto simp: hdlc_rec_bit_def Let_def rrbb_append_bit_def rrbb_clear_def)
  note e = eight_ones [OF t k s, of L]
  note b = rec_ones_body [OF s t k j, of L xs]
  have r: "receive_bits L fcs chan subchan slicer H
               (replicate 8 s @ nrzi_encode s (bit_stuff j xs @ flag_bits)) =
           dispatch_blocks L fcs chan subchan slicer []
             (if MIN_FRAME_LEN L * 8 \<le> int (Suc k + length (bit_stuff j xs))
              then [replicate (Suc k) s @ nrzi_encode s (bit_stuff j xs)] else [])"
    unfolding receive_bits_ok [OF ix] b by (rule refl)
  show ?thesis
    using a e(1) e(5) e(6) e(2) b r by blast
qed

theorem hdlc_rec_abort_discards_witness:
  "prev_raw ((hdlc_rec_init_state limits0)\<lparr>pat_det := 0xfc\<rparr>) = False \<and>
   trail (pat_det ((hdlc_rec_init_state limits0)\<lparr>pat_det := 0xfc\<rparr>)) 6 \<and>
   (6::nat) \<le> 6 \<and> (0::nat) < 5 \<and> decoder_index_ok 0 0 0 \<and>
   shift_in8 (pat_det ((hdlc_rec_init_state limits0)\<lparr>pat_det := 0xfc\<rparr>))
     ((if False then \<not> False else False) =
      prev_raw ((hdlc_rec_init_state limits0)\<lparr>pat_det := 0xfc\<rparr>)) = 0xfe \<and>
   snd (hdlc_rec_bit limits0 ((hdlc_rec_init_state limits0)\<lparr>pat_det := 0xfc\<rparr>) False False) = None \<and>
   olen (fst (hdlc_rec_bit limits0 ((hdlc_rec_init_state limits0)\<lparr>pat_det := 0xfc\<rparr>) False False)) = - 1 \<and>
   frame_len (fst (hdlc_rec_bit limits0 ((hdlc_rec_init_state limits0)\<lparr>pat_det := 0xfc\<rparr>) False False)) = 0 \<and>
   rrbb (fst (hdlc_rec_bit limits0 ((hdlc_rec_init_state limits0)\<lparr>pat_det := 0xfc\<rparr>) False False)) = [] \<and>
   snd (hdlc_rec_bits limits0 ((hdlc_rec_init_state limits0)\<lparr>pat_det := 0xfc\<rparr>)
         (clean (replicate 8 False))) = [] \<and>
   olen (fst (hdlc_rec_bits limits0 ((hdlc_rec_init_state limits0)\<lparr>pat_det := 0xfc\<rparr>)
         (clean (replicate 8 False)))) = - 1 \<and>
   frame_len (fst (hdlc_rec_bits limits0 ((hdlc_rec_init_state limits0)\<lparr>pat_det := 0xfc\<rparr>)
         (clean (replicate 8 False)))) = 0 \<and>
   rrbb (fst (hdlc_rec_bits limits0 ((hdlc_rec_init_state limits0)\<lparr>pat_det := 0xfc\<rparr>)
         (clean (replicate 8 False)))) = replicate 7 False \<and>
   snd (hdlc_rec_bits limits0 ((hdlc_rec_init_state limits0)\<lparr>pat_det := 0xfc\<rparr>)
         (clean (replicate 8 False @
                 nrzi_encode False (bit_stuff 0 (replicate 129 False) @ flag_bits)))) =
     [replicate 7 False @ nrzi_encode False (bit_stuff 0 (replicate 129 False))] \<and>
   receive_bits limits0 fcs_calc 0 0 0 ((hdlc_rec_init_state limits0)\<lparr>pat_det := 0xfc\<rparr>)
         (replicate 8 False @ nrzi_encode False (bit_stuff 0 (replicate 129 False) @ flag_bits)) =
     dispatch_blocks limits0 fcs_calc 0 0 0 []
       [replicate 7 False @ nrzi_encode False (bit_stuff 0 (replicate 129 False))]"
proof -
  define H where "H = (hdlc_rec_init_state limits0)\<lparr>pat_det := 0xfc\<rparr>"
  have s: "prev_raw H = False" by (simp add: H_def hdlc_rec_init_state_def)
  have p: "pat_det H = 0xfc" by (simp add: H_def)
  have t: "trail (pat_det H) 6" unfolding p by (simp add: trail_bits)
  have k: "(6::nat) \<le> 6" by simp
  have j: "(0::nat) < 5" by simp
  have a: "shift_in8 (pat_det H) ((if False then \<not> False else False) = prev_raw H) = 0xfe"
    unfolding p s by (simp add: shift_in8_def)
  have c: "MIN_FRAME_LEN limits0 * 8 \<le> int (Suc 6 + length (bit_stuff 0 (replicate 129 False)))"
    unfolding bit_stuff_zeros by (simp add: MIN_FRAME_LEN_def limits0_def)
  have n: "replicate (Suc 6) False = replicate 7 False" by simp
  note ix = decoder_index_ok_0
  note r = hdlc_rec_abort_discards [OF s t k j ix, of False False limits0 "replicate 129 False"
      fcs_calc]
  show ?thesis
    unfolding H_def [symmetric] using s t k j ix a c r unfolding n by presburger
qed

text \<open>
  A frame of valid length that still gives a frame event when eight one data bits are
  injected after the opening flag and its first two octets: the frame is \<open>head0 @ frame0\<close>,
  the abort discards the flag and the two octets of \<open>head0\<close>, and the rest is a candidate
  that passes the checksum, so the dispatcher queues an item that carries \<open>frame0\<close>.
\<close>

theorem abort_injected_frame_event:
  "receive_bits limits0 fcs_calc 0 0 0 (hdlc_rec_init_state limits0)
     (inject_ones 24 False
        (drop (length (tone send_state0))
           (tone (snd (ax25_only_hdlc_send_frame fcs_calc send_state0 (head0 @ frame0) False))))) =
   Some [\<lparr>item_chan = 0, item_subchan = 0, item_slice = 0, item_pp = frame0,
          item_fec_type = fec_type_none, item_retries = RETRY_NONE\<rparr>]"
proof -
  define L where "L = limits0"
  define f where "f = fcs_calc (head0 @ frame0)"
  define R where "R = concat (map byte_bits (frame0 @ fcs_octets f False))"
  define hb where "hb = [False, True, True, True, True, False, True, True,
      False, False, True, True, False, False, False, False]"
  define s1 where "s1 = line_after False flag_bits"
  define s2 where "s2 = line_after s1 hb"
  define H0 where "H0 = hdlc_rec_init_state L"
  define H1 where "H1 = fst (hdlc_rec_bits L H0 (clean (nrzi_encode False flag_bits)))"
  define H2 where "H2 = fst (hdlc_rec_bits L H1 (clean (nrzi_encode s1 hb)))"
  have m: "0 \<le> AX25_MIN_PACKET_LEN L" by (simp add: L_def limits0_def)
  have lo: "AX25_MIN_PACKET_LEN L \<le> int (length frame0)"
    by (simp add: L_def limits0_def frame0_def)
  have hi: "int (length frame0) \<le> AX25_MAX_PACKET_LEN L"
    by (simp add: L_def limits0_def frame0_def)
  have ff: "fcs_calc frame0 = f" unfolding f_def by (rule fcs_calc_head0 [symmetric])
  have j: "(0::nat) < 5" by simp
  (* the data bits of the frame and the bits on the line *)
  have fd: "frame_data_bits fcs_calc (head0 @ frame0) False = hb @ R"
    unfolding frame_data_bits_def f_def [symmetric] R_def hb_def
    using head0_bits by simp
  have bs: "bit_stuff 0 (hb @ R) = hb @ bit_stuff 0 R"
    unfolding hb_def by (rule head0_unstuffed)
  have raws: "drop (length (tone send_state0))
      (tone (snd (ax25_only_hdlc_send_frame fcs_calc send_state0 (head0 @ frame0) False))) =
      nrzi_encode False (flag_bits @ (hb @ bit_stuff 0 R) @ flag_bits)"
    unfolding sent_raws fd bs by (simp add: send_state0_def)
  have tk: "take 24 (flag_bits @ (hb @ bit_stuff 0 R) @ flag_bits) = flag_bits @ hb"
    by (simp add: flag_bits_def hb_def)
  have dr: "drop 24 (flag_bits @ (hb @ bit_stuff 0 R) @ flag_bits) = bit_stuff 0 R @ flag_bits"
    by (simp add: flag_bits_def hb_def)
  have inj: "inject_ones 24 False (nrzi_encode False (flag_bits @ (hb @ bit_stuff 0 R) @ flag_bits)) =
      nrzi_encode False flag_bits @ (nrzi_encode s1 hb @
        (replicate 8 s2 @ nrzi_encode s2 (bit_stuff 0 R @ flag_bits)))"
    unfolding inject_ones_def nrzi_decode_encode Let_def tk dr
    unfolding append_assoc nrzi_encode_append line_after_append nrzi_encode_ones line_after_ones
      s1_def [symmetric] s2_def [symmetric]
    by (rule refl)
  (* the opening flag *)
  note st = rec_start [OF m, of False, folded H0_def, folded H1_def, folded s1_def]
  (* the two octets before the injected bits *)
  have qb: "quiet (pat_det H1) (bit_stuff 0 hb)"
    using quiet_bit_stuff [OF st(4) j, of hb] by blast
  have hbu: "bit_stuff 0 hb = hb" unfolding hb_def by simp
  have q: "quiet (pat_det H1) hb" using qb unfolding hbu .
  note r2 = rec_quiet [OF st(3) q, of L, folded H2_def, folded s2_def]
  have h2: "snd (hdlc_rec_bits L H1 (clean (nrzi_encode s1 hb))) = []" using r2 by blast
  have p2: "prev_raw H2 = s2" using r2 by blast
  have d2: "pat_det H2 = foldl shift_in8 (pat_det H1) hb" using r2 by blast
  have t2: "trail (pat_det H2) 0"
    unfolding d2 hb_def by (simp add: trail_shift_zero)
  (* the injected bits, the rest of the frame and the closing flag *)
  have k: "(0::nat) \<le> 6" by simp
  note b = rec_ones_body [OF p2 t2 k j, of L R]
  have len: "MIN_FRAME_LEN L * 8 \<le> int (Suc 0 + length (bit_stuff 0 R))"
    using frame_long_enough [OF lo, of s2 f] unfolding R_def by simp
  have b': "snd (hdlc_rec_bits L H2
           (clean (replicate 8 s2 @ nrzi_encode s2 (bit_stuff 0 R @ flag_bits)))) =
         [s2 # nrzi_encode s2 (bit_stuff 0 R)]"
    unfolding b using len by simp
  define tl where "tl = clean (replicate 8 s2 @ nrzi_encode s2 (bit_stuff 0 R @ flag_bits))"
  have cl: "clean (nrzi_encode False flag_bits @ (nrzi_encode s1 hb @
        (replicate 8 s2 @ nrzi_encode s2 (bit_stuff 0 R @ flag_bits)))) =
      clean (nrzi_encode False flag_bits) @ (clean (nrzi_encode s1 hb) @ tl)"
    unfolding tl_def by (simp only: clean_append)
  have hs: "snd (hdlc_rec_bits L H0 (clean (nrzi_encode False flag_bits @ (nrzi_encode s1 hb @
        (replicate 8 s2 @ nrzi_encode s2 (bit_stuff 0 R @ flag_bits)))))) =
      [s2 # nrzi_encode s2 (bit_stuff 0 R)]"
    unfolding cl hdlc_rec_bits_append_snd H1_def [symmetric] st(1)
      H2_def [symmetric] h2 b' [folded tl_def]
    by simp
  have blk: "hdlc_rec2_block L fcs_calc (s2 # nrzi_encode s2 (bit_stuff 0 R)) = Some frame0"
    unfolding R_def by (rule hdlc_rec2_block_frame [where fcs = fcs_calc, OF lo hi ff])
  show ?thesis
    unfolding L_def [symmetric] receive_bits_ok [OF decoder_index_ok_0] raws inj
      H0_def [symmetric] hs
    by (rule dispatch_one [OF blk decoder_index_ok_0])
qed

section \<open>The round trip needs a decoder that sees the opening flag\<close>








section \<open>Bundling: the frames of one transmission\<close>

lemma frame_flavor_digipeated: "frame_flavor pp = FLAVOR_APRS_DIGI \<longleftrightarrow> digipeated pp"
  by (simp add: frame_flavor_def digipeated_def)

lemma next_frame_frames:
  "next_frame Q = (case tq_frames Q of [] \<Rightarrow> None | p # ps \<Rightarrow> Some p)"
  by (simp add: next_frame_def tq_peek_def tq_frames_def split: list.splits)

lemma tq_frames_drop: "tq_frames (tq_drop Q) = tl (tq_frames Q)"
  by (simp add: tq_frames_def tq_drop_def tq_remove_def next_prio_def split: list.splits)

lemma next_frame_Cons: "tq_frames Q = p # ps \<Longrightarrow> next_frame Q = Some p"
  by (simp add: next_frame_frames)

lemma next_frame_Nil: "tq_frames Q = [] \<Longrightarrow> next_frame Q = None"
  by (simp add: next_frame_frames)

text \<open>
  The bundling loop on a queue without null frames: it sends the packets of the queue in
  order, up to the first digipeated one and as long as the count is below the cap.
\<close>

lemma bundle_loop_exact:
  "tq_frames Q = fs \<Longrightarrow> \<forall>q \<in> set fs. \<not> ax25_is_null_frame q \<Longrightarrow>
   \<exists>Q' S' evs.
     bundle_loop E mb nf Q S ev =
       (Q', S', nf + int (length (take (nat (mb - nf)) (takeWhile (\<lambda>q. \<not> digipeated q) fs))),
        ev @ evs) \<and>
     tq_frames Q' = drop (length (take (nat (mb - nf)) (takeWhile (\<lambda>q. \<not> digipeated q) fs))) fs \<and>
     frames_of evs = take (nat (mb - nf)) (takeWhile (\<lambda>q. \<not> digipeated q) fs) \<and>
     (\<forall>v. PTT v \<notin> set evs)"
proof (induction fs arbitrary: Q nf S ev)
  case Nil
  have "bundle_loop E mb nf Q S ev = (Q, S, nf, ev)"
    by (rule bundle_loop_none [OF next_frame_Nil [OF Nil.prems(1)]])
  then show ?case using Nil.prems(1) by simp
next
  case (Cons p ps)
  have nx: "next_frame Q = Some p" by (rule next_frame_Cons [OF Cons.prems(1)])
  show ?case
  proof (cases "nf < mb")
    case False
    have "bundle_loop E mb nf Q S ev = (Q, S, nf, ev)"
      by (rule bundle_loop_full [OF False])
    moreover have "nat (mb - nf) = 0" using False by simp
    ultimately show ?thesis using Cons.prems(1) by simp
  next
    case lt: True
    show ?thesis
    proof (cases "digipeated p")
      case True
      have "bundle_loop E mb nf Q S ev = (Q, S, nf, ev)"
        using bundle_loop_digi [OF nx] True by (simp add: frame_flavor_digipeated)
      then show ?thesis using Cons.prems(1) True by simp
    next
      case False
      define nb where "nb = fst (send_one_frame E S (next_prio Q) p)"
      define S1 where "S1 = snd (send_one_frame E S (next_prio Q) p)"
      define e where "e = [FRAME (next_prio Q) p nb, DELETE p]"
      have nn: "\<not> ax25_is_null_frame p" using Cons.prems(2) by simp
      have pos: "nb > 0" unfolding nb_def by (rule send_one_frame_pos [OF nn])
      have fl: "frame_flavor p \<noteq> FLAVOR_APRS_DIGI"
        using False by (simp add: frame_flavor_digipeated)
      have st: "bundle_loop E mb nf Q S ev = bundle_loop E mb (nf + 1) (tq_drop Q) S1 (ev @ e)"
        using bundle_loop_step [OF lt nx fl, of E S ev] pos
        unfolding nb_def [symmetric] S1_def [symmetric] e_def by simp
      have f1: "tq_frames (tq_drop Q) = ps"
        using Cons.prems(1) by (simp add: tq_frames_drop)
      have n1: "\<forall>q \<in> set ps. \<not> ax25_is_null_frame q" using Cons.prems(2) by simp
      define sent where "sent = take (nat (mb - (nf + 1))) (takeWhile (\<lambda>q. \<not> digipeated q) ps)"
      from Cons.IH [OF f1 n1, of "nf + 1" S1 "ev @ e"]
      obtain Q' S' evs where ih:
        "bundle_loop E mb (nf + 1) (tq_drop Q) S1 (ev @ e) =
           (Q', S', nf + 1 + int (length sent), (ev @ e) @ evs)"
        "tq_frames Q' = drop (length sent) ps"
        "frames_of evs = sent"
        "\<forall>v. PTT v \<notin> set evs"
        unfolding sent_def by blast
      have sn: "nat (mb - nf) = Suc (nat (mb - (nf + 1)))" using lt by simp
      have tk: "take (nat (mb - nf)) (takeWhile (\<lambda>q. \<not> digipeated q) (p # ps)) = p # sent"
        unfolding sn sent_def using False by simp
      have a: "bundle_loop E mb nf Q S ev =
          (Q', S', nf + int (length (p # sent)), ev @ (e @ evs))"
        unfolding st ih(1) by simp
      have b: "tq_frames Q' = drop (length (p # sent)) (p # ps)"
        using ih(2) by simp
      have c: "frames_of (e @ evs) = p # sent"
        unfolding frames_of_append ih(3) e_def by simp
      have d: "\<forall>v. PTT v \<notin> set (e @ evs)"
        using ih(4) unfolding e_def by simp
      show ?thesis
        unfolding tk using a b c d by blast
    qed
  qed
qed

text \<open>
  A transmission whose first packet and queue hold no null frame: the first packet, then
  what the bundling loop takes.
\<close>

lemma xmit_exact:
  assumes n0: "\<not> ax25_is_null_frame pp"
    and n1: "\<forall>q \<in> set (tq_frames Q). \<not> ax25_is_null_frame q"
  shows "\<exists>Q2 S3 nf ev.
     xmit_ax25_frames E txdelay txtail bps Q S prio pp mb = (Q2, S3, nf, ev) \<and>
     frames_of ev = pp # take (nat (mb - 1)) (takeWhile (\<lambda>q. \<not> digipeated q) (tq_frames Q)) \<and>
     tq_frames Q2 =
       drop (length (take (nat (mb - 1)) (takeWhile (\<lambda>q. \<not> digipeated q) (tq_frames Q))))
         (tq_frames Q) \<and>
     length (filter (\<lambda>e. e = PTT 1) ev) = 1"
proof -
  define sent where "sent = take (nat (mb - 1)) (takeWhile (\<lambda>q. \<not> digipeated q) (tq_frames Q))"
  obtain nf0 S0 where p0: "layer2_preamble_postamble S (c_div (MS_TO_BITS (txdelay * 10) bps) 8) = (nf0, S0)"
    by (cases "layer2_preamble_postamble S (c_div (MS_TO_BITS (txdelay * 10) bps) 8)")
  obtain nb S1 where s1: "send_one_frame E S0 prio pp = (nb, S1)"
    by (cases "send_one_frame E S0 prio pp")
  have nb: "nb > 0" using send_one_frame_pos [OF n0, of E S0 prio] s1 by simp
  define ev0 where "ev0 = [PTT 1, FLAGS (c_div (MS_TO_BITS (txdelay * 10) bps) 8), FRAME prio pp nb, DELETE pp]"
  from bundle_loop_exact [OF refl n1, of E mb 1 S1 ev0]
  obtain Qb Sb evs where b:
    "bundle_loop E mb 1 Q S1 ev0 = (Qb, Sb, 1 + int (length sent), ev0 @ evs)"
    "tq_frames Qb = drop (length sent) (tq_frames Q)"
    "frames_of evs = sent"
    "\<forall>v. PTT v \<notin> set evs"
    unfolding sent_def by blast
  obtain nf3 Sp where p3: "layer2_preamble_postamble Sb (c_div (MS_TO_BITS (txtail * 10) bps) 8) = (nf3, Sp)"
    by (cases "layer2_preamble_postamble Sb (c_div (MS_TO_BITS (txtail * 10) bps) 8)")
  define ev where "ev = (ev0 @ evs) @ [FLAGS (c_div (MS_TO_BITS (txtail * 10) bps) 8), PTT 0]"
  have r: "xmit_ax25_frames E txdelay txtail bps Q S prio pp mb = (Qb, Sp, 1 + int (length sent), ev)"
    using nb b(1) unfolding ev0_def ev_def by (simp add: xmit_ax25_frames_def p0 s1 p3)
  have ptt: "filter (\<lambda>e. e = PTT 1) evs = []"
    using b(4) by (auto simp: filter_empty_conv)
  have f: "frames_of ev = pp # sent"
    unfolding ev_def ev0_def by (simp add: frames_of_append b(3))
  have p: "length (filter (\<lambda>e. e = PTT 1) ev) = 1"
    unfolding ev_def ev0_def by (simp add: ptt)
  show ?thesis
    unfolding sent_def [symmetric] using r f b(2) p by blast
qed

text \<open>
  Claim C4. In a round of the transmit thread that got the channel, let \<open>pp\<close> be the packet
  it removes and \<open>rest\<close> the other packets of the queue, in the order the scheduler takes
  them. If \<open>pp\<close> is an APRS frame with at least one digipeater whose first digipeater has
  the has-been-repeated bit set (and is not the null frame, so that sending it gives out
  bits), the transmission has one PTT cycle, \<open>pp\<close> is the only frame sent in it and nothing
  else leaves the queue. If \<open>pp\<close> is not such a frame (and there is no null frame), the
  frames sent in the one PTT cycle are \<open>pp\<close> and then the packets of \<open>rest\<close>, in order, that
  come before the first such digipeated frame, 255 of them at most, so 256 frames in all
  at most; exactly these leave the queue. In every case the frames sent after the first
  one are not digipeated frames, and at most 256 frames that produced bits are sent in the
  one PTT cycle. During bundling, whatever the cap and the count, the loop returns without
  removing anything when the next packet is a digipeated frame.
\<close>

theorem aprs_digi_not_bundled:
  assumes w: "wait_for_clear_channel WE (ct_slottime C) (ct_persist C) (ct_fulldup C) (ct_dwait C) =
             Some (ok, W)"
    and ok: "ok \<noteq> 0"
    and fs: "tq_frames Q = pp # rest"
  shows "(digipeated pp \<and> \<not> ax25_is_null_frame pp \<longrightarrow>
            (\<exists>S2 ev. xmit_thread_round E WE C Q S = Some (tq_drop Q, S2, W, ev) \<and>
               tq_frames (tq_drop Q) = rest \<and>
               frames_of ev = [pp] \<and> length (filter (\<lambda>e. e = PTT 1) ev) = 1)) \<and>
         (\<not> digipeated pp \<and> (\<forall>q \<in> set (pp # rest). \<not> ax25_is_null_frame q) \<longrightarrow>
            (\<exists>Q2 S2 ev. xmit_thread_round E WE C Q S = Some (Q2, S2, W, ev) \<and>
               frames_of ev = pp # take 255 (takeWhile (\<lambda>q. \<not> digipeated q) rest) \<and>
               tq_frames Q2 =
                 drop (length (take 255 (takeWhile (\<lambda>q. \<not> digipeated q) rest))) rest \<and>
               length (filter (\<lambda>e. e = PTT 1) ev) = 1)) \<and>
         (\<exists>Q2 S2 ev new. xmit_thread_round E WE C Q S = Some (Q2, S2, W, ev) \<and>
            frames_of ev = pp # new \<and>
            (\<forall>q \<in> set new. \<not> digipeated q) \<and>
            length (filter sent_frame ev) \<le> 256 \<and>
            length (filter (\<lambda>e. e = PTT 1) ev) = 1) \<and>
         (\<forall>m n Q' S' ev' q. next_frame Q' = Some q \<and> digipeated q \<longrightarrow>
            bundle_loop E m n Q' S' ev' = (Q', S', n, ev'))"
proof (intro conjI impI allI)
  have nx: "next_frame Q = Some pp" by (rule next_frame_Cons [OF fs])
  have dr: "tq_frames (tq_drop Q) = rest" using fs by (simp add: tq_frames_drop)
  note rs = round_send [OF w ok nx, of E S]
  {
    assume d: "digipeated pp \<and> \<not> ax25_is_null_frame pp"
    from xmit_digi_single [of pp E "ct_txdelay C" "ct_txtail C" "ct_bits_per_sec C" "tq_drop Q" S
        "next_prio Q"] d
    obtain S' nb pre post where x:
      "xmit_ax25_frames E (ct_txdelay C) (ct_txtail C) (ct_bits_per_sec C) (tq_drop Q) S
         (next_prio Q) pp 1 =
       (tq_drop Q, S', 1, [PTT 1, FLAGS pre, FRAME (next_prio Q) pp nb, DELETE pp, FLAGS post, PTT 0])"
      by blast
    have "xmit_thread_round E WE C Q S =
        Some (tq_drop Q, S', W,
          [PTT 1, FLAGS pre, FRAME (next_prio Q) pp nb, DELETE pp, FLAGS post, PTT 0])"
      using d x by (simp add: rs frame_flavor_digipeated)
    then show "\<exists>S2 ev. xmit_thread_round E WE C Q S = Some (tq_drop Q, S2, W, ev) \<and>
        tq_frames (tq_drop Q) = rest \<and>
        frames_of ev = [pp] \<and> length (filter (\<lambda>e. e = PTT 1) ev) = 1"
      using dr by simp
  }
  {
    assume d: "\<not> digipeated pp \<and> (\<forall>q \<in> set (pp # rest). \<not> ax25_is_null_frame q)"
    have n0: "\<not> ax25_is_null_frame pp" using d by simp
    have n1: "\<forall>q \<in> set (tq_frames (tq_drop Q)). \<not> ax25_is_null_frame q"
      unfolding dr using d by simp
    have mb: "nat (256 - 1) = (255::nat)" by simp
    from xmit_exact [OF n0 n1, of E "ct_txdelay C" "ct_txtail C" "ct_bits_per_sec C" S
        "next_prio Q" 256]
    obtain Q2 S3 nf ev where x:
      "xmit_ax25_frames E (ct_txdelay C) (ct_txtail C) (ct_bits_per_sec C) (tq_drop Q) S
         (next_prio Q) pp 256 = (Q2, S3, nf, ev)"
      "frames_of ev = pp # take 255 (takeWhile (\<lambda>q. \<not> digipeated q) rest)"
      "tq_frames Q2 = drop (length (take 255 (takeWhile (\<lambda>q. \<not> digipeated q) rest))) rest"
      "length (filter (\<lambda>e. e = PTT 1) ev) = 1"
      unfolding dr mb by blast
    have "xmit_thread_round E WE C Q S = Some (Q2, S3, W, ev)"
      using d x(1) by (simp add: rs frame_flavor_digipeated)
    then show "\<exists>Q2 S2 ev. xmit_thread_round E WE C Q S = Some (Q2, S2, W, ev) \<and>
        frames_of ev = pp # take 255 (takeWhile (\<lambda>q. \<not> digipeated q) rest) \<and>
        tq_frames Q2 = drop (length (take 255 (takeWhile (\<lambda>q. \<not> digipeated q) rest))) rest \<and>
        length (filter (\<lambda>e. e = PTT 1) ev) = 1"
      using x(2,3,4) by blast
  }
  {
    let ?mb = "if frame_flavor pp = FLAVOR_APRS_DIGI then 1 else (256::int)"
    obtain Q2 S2 nf ev where x:
      "xmit_ax25_frames E (ct_txdelay C) (ct_txtail C) (ct_bits_per_sec C) (tq_drop Q) S
         (next_prio Q) pp ?mb = (Q2, S2, nf, ev)"
      by (cases "xmit_ax25_frames E (ct_txdelay C) (ct_txtail C) (ct_bits_per_sec C) (tq_drop Q) S
         (next_prio Q) pp ?mb")
    from xmit_frames_general [OF x] obtain new where new:
      "frames_of ev = pp # new" "\<forall>q \<in> set new. frame_flavor q \<noteq> FLAVOR_APRS_DIGI"
      "nf = int (length (filter sent_frame ev))" "1 \<le> ?mb \<longrightarrow> nf \<le> ?mb"
      "length (filter (\<lambda>e. e = PTT 1) ev) = 1"
      by blast
    have r: "xmit_thread_round E WE C Q S = Some (Q2, S2, W, ev)"
      using x by (simp add: rs)
    have "nf \<le> 256"
      using new(4) by (simp split: if_splits)
    then have l: "length (filter sent_frame ev) \<le> 256"
      using new(3) by simp
    have nd: "\<forall>q \<in> set new. \<not> digipeated q"
      using new(2) by (simp add: frame_flavor_digipeated)
    show "\<exists>Q2 S2 ev new. xmit_thread_round E WE C Q S = Some (Q2, S2, W, ev) \<and>
        frames_of ev = pp # new \<and> (\<forall>q \<in> set new. \<not> digipeated q) \<and>
        length (filter sent_frame ev) \<le> 256 \<and> length (filter (\<lambda>e. e = PTT 1) ev) = 1"
      using r new(1) nd l new(5) by blast
  }
  {
    fix m n Q' S' ev' q
    assume "next_frame Q' = Some q \<and> digipeated q"
    then show "bundle_loop E m n Q' S' ev' = (Q', S', n, ev')"
      by (simp add: bundle_loop_digi frame_flavor_digipeated)
  }
qed

theorem aprs_digi_not_bundled_witness:
  "wait_for_clear_channel wait_env_clear (ct_slottime chan_timing0) (ct_persist chan_timing0)
     (ct_fulldup chan_timing0) (ct_dwait chan_timing0) =
     Some (1, wait_state0\<lparr>w_dcd := 3, w_peek := 1, w_rand := 1, w_lock := 1,
                          w_sleeps := [10 * 10]\<rparr>) \<and>
   (1::int) \<noteq> 0 \<and>
   digipeated pkt_digi \<and> digipeated pkt_digi2 \<and> \<not> digipeated pkt_new \<and>
   \<not> ax25_is_null_frame pkt_digi \<and> \<not> ax25_is_null_frame pkt_digi2 \<and>
   \<not> ax25_is_null_frame pkt_new \<and>
   tq_frames tq0 = pkt_digi # [pkt_new, pkt_new] \<and>
   (\<exists>S2 ev. xmit_thread_round xmit_env0 wait_env_clear chan_timing0 tq0 send_state0 =
       Some (tq_drop tq0, S2,
             wait_state0\<lparr>w_dcd := 3, w_peek := 1, w_rand := 1, w_lock := 1,
                          w_sleeps := [10 * 10]\<rparr>, ev) \<and>
       tq_frames (tq_drop tq0) = [pkt_new, pkt_new] \<and>
       frames_of ev = [pkt_digi] \<and> length (filter (\<lambda>e. e = PTT 1) ev) = 1) \<and>
   tq_frames tq1 = pkt_new # [pkt_new, pkt_digi2, pkt_new] \<and>
   (\<exists>Q2 S2 ev. xmit_thread_round xmit_env0 wait_env_clear chan_timing0 tq1 send_state0 =
       Some (Q2, S2,
             wait_state0\<lparr>w_dcd := 3, w_peek := 1, w_rand := 1, w_lock := 1,
                          w_sleeps := [10 * 10]\<rparr>, ev) \<and>
       frames_of ev = [pkt_new, pkt_new] \<and>
       tq_frames Q2 = [pkt_digi2, pkt_new] \<and>
       length (filter (\<lambda>e. e = PTT 1) ev) = 1) \<and>
   tq_frames tq2 = pkt_new # replicate 299 pkt_new \<and>
   (\<exists>Q2 S2 ev. xmit_thread_round xmit_env0 wait_env_clear chan_timing0 tq2 send_state0 =
       Some (Q2, S2,
             wait_state0\<lparr>w_dcd := 3, w_peek := 1, w_rand := 1, w_lock := 1,
                          w_sleeps := [10 * 10]\<rparr>, ev) \<and>
       frames_of ev = pkt_new # replicate 255 pkt_new \<and>
       tq_frames Q2 = replicate 44 pkt_new \<and>
       length (filter (\<lambda>e. e = PTT 1) ev) = 1)"
proof -
  define Wc where "Wc = wait_state0\<lparr>w_dcd := 3, w_peek := 1, w_rand := 1, w_lock := 1,
                          w_sleeps := [10 * 10]\<rparr>"
  have w: "wait_for_clear_channel wait_env_clear (ct_slottime chan_timing0)
      (ct_persist chan_timing0) (ct_fulldup chan_timing0) (ct_dwait chan_timing0) = Some (1, Wc)"
    unfolding Wc_def using wait_persist_255 [of wait_env_clear 0 10]
    by (simp add: wait_env_clear_def chan_timing0_def)
  have ok: "(1::int) \<noteq> 0" by simp
  have d1: "digipeated pkt_digi" by (simp add: digipeated_def pkt_digi_def)
  have d2: "digipeated pkt_digi2" by (simp add: digipeated_def pkt_digi2_def)
  have d3: "\<not> digipeated pkt_new" by (simp add: digipeated_def pkt_new_def)
  have n1: "\<not> ax25_is_null_frame pkt_digi" by (simp add: pkt_digi_def)
  have n2: "\<not> ax25_is_null_frame pkt_digi2" by (simp add: pkt_digi2_def)
  have n3: "\<not> ax25_is_null_frame pkt_new" by (simp add: pkt_new_def)
  have f0: "tq_frames tq0 = pkt_digi # [pkt_new, pkt_new]" by (simp add: tq_frames_def tq0_def)
  have f1: "tq_frames tq1 = pkt_new # [pkt_new, pkt_digi2, pkt_new]"
    by (simp add: tq_frames_def tq1_def)
  have f2: "tq_frames tq2 = pkt_new # replicate 299 pkt_new" by (simp add: tq_frames_def tq2_def)
  have a: "\<exists>S2 ev. xmit_thread_round xmit_env0 wait_env_clear chan_timing0 tq0 send_state0 =
       Some (tq_drop tq0, S2, Wc, ev) \<and>
       tq_frames (tq_drop tq0) = [pkt_new, pkt_new] \<and>
       frames_of ev = [pkt_digi] \<and> length (filter (\<lambda>e. e = PTT 1) ev) = 1"
    by (rule aprs_digi_not_bundled [OF w ok f0, of xmit_env0 send_state0,
          THEN conjunct1, THEN mp, OF conjI [OF d1 n1]])
  have b1: "\<forall>q \<in> set (pkt_new # [pkt_new, pkt_digi2, pkt_new]). \<not> ax25_is_null_frame q"
    using n2 n3 by simp
  have t1: "take 255 (takeWhile (\<lambda>q. \<not> digipeated q) [pkt_new, pkt_digi2, pkt_new]) = [pkt_new]"
    using d2 d3 by simp
  have b: "\<exists>Q2 S2 ev. xmit_thread_round xmit_env0 wait_env_clear chan_timing0 tq1 send_state0 =
       Some (Q2, S2, Wc, ev) \<and>
       frames_of ev = [pkt_new, pkt_new] \<and>
       tq_frames Q2 = [pkt_digi2, pkt_new] \<and>
       length (filter (\<lambda>e. e = PTT 1) ev) = 1"
    using aprs_digi_not_bundled [OF w ok f1, of xmit_env0 send_state0,
          THEN conjunct2, THEN conjunct1, THEN mp, OF conjI [OF d3 b1]]
    unfolding t1 by simp
  have b2: "\<forall>q \<in> set (pkt_new # replicate 299 pkt_new). \<not> ax25_is_null_frame q"
    using n3 by simp
  have t2: "take 255 (takeWhile (\<lambda>q. \<not> digipeated q) (replicate 299 pkt_new)) =
      replicate 255 pkt_new"
    using d3 by (simp add: takeWhile_replicate)
  have dr: "drop (length (replicate 255 pkt_new)) (replicate 299 pkt_new) = replicate 44 pkt_new"
    by simp
  have c: "\<exists>Q2 S2 ev. xmit_thread_round xmit_env0 wait_env_clear chan_timing0 tq2 send_state0 =
       Some (Q2, S2, Wc, ev) \<and>
       frames_of ev = pkt_new # replicate 255 pkt_new \<and>
       tq_frames Q2 = replicate 44 pkt_new \<and>
       length (filter (\<lambda>e. e = PTT 1) ev) = 1"
    using aprs_digi_not_bundled [OF w ok f2, of xmit_env0 send_state0,
          THEN conjunct2, THEN conjunct1, THEN mp, OF conjI [OF d3 b2]]
    unfolding t2 dr .
  show ?thesis
    unfolding Wc_def [symmetric]
    by (intro conjI) (rule w ok d1 d2 d3 n1 n2 n3 f0 a f1 b f2 c)+
qed

section \<open>The timeout of the wait for a clear channel\<close>





















end
